theory Spec2Isabelle
  imports Complex_Main "HOL-Library.Word"
begin

section \<open>Data model of the project store\<close>

text \<open>
  The store (the \<^verbatim>\<open>useProjectStore\<close> module) keeps one optional project, a list of
  versions in insertion order and the id of the current version. Identifiers come from
  \<^verbatim>\<open>uuidv4()\<close> and time stamps from \<^verbatim>\<open>new Date()\<close>; both are supplied to the model
  as arguments, in the order in which the source draws them.
\<close>

record Bounds =
  b_x :: int
  b_y :: int
  b_width :: int
  b_height :: int

record Mask =
  id_m :: string
  imageData_m :: "8 word list"
  bounds :: Bounds

record Flaw =
  id_f :: string
  point :: "real \<times> real"
  description :: string
  resolved :: bool
  createdAt_f :: nat

record Version =
  id_v :: string
  imageUrl :: string
  parentId :: "string option"
  prompt :: string
  mask :: "Mask option"
  flaws :: "Flaw list"
  createdAt_v :: nat

record Project =
  id_p :: string
  name :: string
  versions :: "Version list"
  currentVersionId :: string
  createdAt_p :: nat
  updatedAt :: nat

datatype Tool = Select | Pan | MaskTool | FlawTool

record ProjectState =
  project :: "Project option"
  activeTool :: Tool
  isGenerating :: bool
  selectedFlawId :: "string option"
  currentMask :: "Mask option"
  promptText :: string
  showWizard :: bool
  canvasScale :: real
  canvasPosition :: "real \<times> real"

definition initialState :: ProjectState where
  "initialState =
     \<lparr> project = None, activeTool = Select, isGenerating = False, selectedFlawId = None,
       currentMask = None, promptText = [], showWizard = False,
       canvasScale = 1, canvasPosition = (0, 0) \<rparr>"

section \<open>Store actions\<close>

text \<open>\<^verbatim>\<open>createProject\<close>: two fresh ids (project, version), one time stamp.\<close>

definition createProject ::
  "string \<Rightarrow> string \<Rightarrow> nat \<Rightarrow> string \<Rightarrow> string \<Rightarrow> ProjectState \<Rightarrow> ProjectState" where
  "createProject projectId versionId now nm initialImageUrl state =
     (let initialVersion =
            \<lparr> id_v = versionId, imageUrl = initialImageUrl, parentId = None,
              prompt = ''Original upload'', mask = None, flaws = [], createdAt_v = now \<rparr>;
          proj =
            \<lparr> id_p = projectId, name = nm, versions = [initialVersion],
              currentVersionId = versionId, createdAt_p = now, updatedAt = now \<rparr>
      in state\<lparr>project := Some proj\<rparr>)"

definition setCurrentVersion :: "nat \<Rightarrow> string \<Rightarrow> ProjectState \<Rightarrow> ProjectState" where
  "setCurrentVersion now versionId state =
     (case project state of
        None \<Rightarrow> state
      | Some p \<Rightarrow>
          state\<lparr> project := Some (p\<lparr>currentVersionId := versionId, updatedAt := now\<rparr>),
                 currentMask := None, selectedFlawId := None \<rparr>)"

text \<open>
  \<^verbatim>\<open>addVersion\<close> builds the new version before it looks at the state, returns it in every
  case, and appends it when a project exists. The parent id is stored as given.
\<close>

definition addVersion ::
  "string \<Rightarrow> nat \<Rightarrow> string \<Rightarrow> string \<Rightarrow> Mask option \<Rightarrow> string \<Rightarrow> ProjectState
     \<Rightarrow> Version \<times> ProjectState" where
  "addVersion versionId now imgUrl prmpt msk parent state =
     (let newVersion =
            \<lparr> id_v = versionId, imageUrl = imgUrl, parentId = Some parent,
              prompt = prmpt, mask = msk, flaws = [], createdAt_v = now \<rparr>
      in (newVersion,
          case project state of
            None \<Rightarrow> state
          | Some p \<Rightarrow>
              state\<lparr> project := Some (p\<lparr> versions := versions p @ [newVersion],
                                            currentVersionId := versionId,
                                            updatedAt := now \<rparr>),
                     currentMask := None, promptText := [] \<rparr>))"

definition getCurrentVersion :: "ProjectState \<Rightarrow> Version option" where
  "getCurrentVersion state =
     (case project state of
        None \<Rightarrow> None
      | Some p \<Rightarrow> find (\<lambda>v. id_v v = currentVersionId p) (versions p))"

definition getVersionById :: "ProjectState \<Rightarrow> string \<Rightarrow> Version option" where
  "getVersionById state i =
     (case project state of
        None \<Rightarrow> None
      | Some p \<Rightarrow> find (\<lambda>v. id_v v = i) (versions p))"

text \<open>
  The step of the history loop: \<^verbatim>\<open>version.parentId ? versions.find(...) || null : null\<close>.
  A \<^verbatim>\<open>null\<close> parent id and the empty string are both falsy.
\<close>

definition parentOf :: "Project \<Rightarrow> Version \<Rightarrow> Version option" where
  "parentOf p v =
     (case parentId v of
        None \<Rightarrow> None
      | Some pid \<Rightarrow> if pid = [] then None else find (\<lambda>u. id_v u = pid) (versions p))"

text \<open>
  The \<^verbatim>\<open>while (version)\<close> loop of \<^verbatim>\<open>getVersionHistory\<close>, with \<^verbatim>\<open>unshift\<close> as
  consing. The loop has no bound in the source, so the model is a partial function:
  \<open>None\<close> stands for a walk that never ends.
\<close>

partial_function (option) walkHistory ::
  "Project \<Rightarrow> Version option \<Rightarrow> Version list \<Rightarrow> Version list option" where
  "walkHistory p version history =
     (case version of
        None \<Rightarrow> Some history
      | Some v \<Rightarrow> walkHistory p (parentOf p v) (v # history))"

definition getVersionHistory :: "ProjectState \<Rightarrow> Version list option" where
  "getVersionHistory state =
     (case project state of
        None \<Rightarrow> Some []
      | Some p \<Rightarrow>
          (case getCurrentVersion state of
             None \<Rightarrow> Some []
           | Some current \<Rightarrow> walkHistory p (Some current) []))"

section \<open>Reachable stores and well-formed histories\<close>

text \<open>
  What \<^verbatim>\<open>uuidv4()\<close> guarantees for the id drawn inside \<^verbatim>\<open>addVersion\<close>: it is a
  non-empty string that differs from the parent id passed in and from every id and parent
  id already stored in the project.
\<close>

definition freshId :: "ProjectState \<Rightarrow> string \<Rightarrow> string \<Rightarrow> bool" where
  "freshId state parent versionId =
     (versionId \<noteq> [] \<and> versionId \<noteq> parent \<and>
      (case project state of
         None \<Rightarrow> True
       | Some p \<Rightarrow> \<forall>v \<in> set (versions p). id_v v \<noteq> versionId \<and> parentId v \<noteq> Some versionId))"

text \<open>
  The stores that arise from the initial store by \<^verbatim>\<open>createProject\<close>, \<^verbatim>\<open>addVersion\<close>
  and \<^verbatim>\<open>setCurrentVersion\<close>, with arbitrary arguments apart from the generated ids.
\<close>

inductive reachable :: "ProjectState \<Rightarrow> bool" where
  r_init: "reachable initialState"
| r_create: "reachable s \<Longrightarrow> versionId \<noteq> [] \<Longrightarrow>
     reachable (createProject projectId versionId now nm url s)"
| r_add: "reachable s \<Longrightarrow> freshId s parent versionId \<Longrightarrow>
     reachable (snd (addVersion versionId now url prmpt msk parent s))"
| r_set: "reachable s \<Longrightarrow> reachable (setCurrentVersion now versionId s)"

text \<open>
  A history of \<open>target\<close>: consecutive entries are child after parent, the last entry is
  the target, and the first entry has no parent that the loop could follow.
\<close>

fun linked :: "Project \<Rightarrow> Version list \<Rightarrow> bool" where
  "linked p [] = True"
| "linked p [v] = True"
| "linked p (u # v # vs) = (parentOf p v = Some u \<and> linked p (v # vs))"

definition isHistoryOf :: "Project \<Rightarrow> Version \<Rightarrow> Version list \<Rightarrow> bool" where
  "isHistoryOf p target h =
     (h \<noteq> [] \<and> last h = target \<and> parentOf p (hd h) = None \<and> linked p h \<and> set h \<subseteq> set (versions p))"

text \<open>
  The structural invariant behind termination: no version names as parent the id of a
  version stored at its own or a later position.
\<close>

definition parentsEarlier :: "Version list \<Rightarrow> bool" where
  "parentsEarlier vs =
     (\<forall>i < length vs. \<forall>j < length vs. i \<le> j \<longrightarrow> parentId (vs ! i) \<noteq> Some (id_v (vs ! j)))"

text \<open>Every parent id stored in the project is the id of a stored version.\<close>

definition parentsStored :: "Project \<Rightarrow> bool" where
  "parentsStored p =
     (\<forall>u \<in> set (versions p). \<forall>pid. parentId u = Some pid \<longrightarrow> pid \<in> id_v ` set (versions p))"

definition storeInv :: "ProjectState \<Rightarrow> bool" where
  "storeInv s =
     (case project s of
        None \<Rightarrow> True
      | Some p \<Rightarrow>
          versions p \<noteq> [] \<and>
          parentsEarlier (versions p) \<and>
          (\<forall>v \<in> set (versions p). id_v v \<noteq> []) \<and>
          (\<forall>i < length (versions p). (parentId (versions p ! i) = None) = (i = 0)))"

subsection \<open>A concrete project: one upload and two edits of it\<close>

definition exampleRoot :: ProjectState where
  "exampleRoot = createProject ''p1'' ''r'' 1 ''kitchen'' ''data:r'' initialState"

definition exampleR :: Version where
  "exampleR = \<lparr> id_v = ''r'', imageUrl = ''data:r'', parentId = None,
                prompt = ''Original upload'', mask = None, flaws = [], createdAt_v = 1 \<rparr>"

definition exampleA :: Version where
  "exampleA = \<lparr> id_v = ''a'', imageUrl = ''data:a'', parentId = Some ''r'',
                prompt = ''warmer light'', mask = None, flaws = [], createdAt_v = 2 \<rparr>"

definition exampleB :: Version where
  "exampleB = \<lparr> id_v = ''b'', imageUrl = ''data:b'', parentId = Some ''r'',
                prompt = ''add plants'', mask = None, flaws = [], createdAt_v = 3 \<rparr>"

definition exampleFork :: ProjectState where
  "exampleFork =
     snd (addVersion ''b'' 3 ''data:b'' ''add plants'' None ''r''
       (snd (addVersion ''a'' 2 ''data:a'' ''warmer light'' None ''r'' exampleRoot)))"

text \<open>The upload followed by one edit whose parent id names no version.\<close>

definition ghostA :: Version where
  "ghostA = \<lparr> id_v = ''a'', imageUrl = ''data:a'', parentId = Some ''ghost'',
               prompt = ''warmer light'', mask = None, flaws = [], createdAt_v = 2 \<rparr>"

definition ghostStore :: ProjectState where
  "ghostStore = snd (addVersion ''a'' 2 ''data:a'' ''warmer light'' None ''ghost'' exampleRoot)"

section \<open>Canvas pixels\<close>

text \<open>
  A canvas with the RGBA bytes read from it (\<^verbatim>\<open>getImageData(0, 0, width, height).data\<close>,
  a \<^verbatim>\<open>Uint8ClampedArray\<close>): four bytes per pixel, rows from top to bottom.
\<close>

record Canvas =
  width :: int
  height :: int
  data :: "8 word list"

text \<open>
  Reading a typed array outside its range gives \<^verbatim>\<open>undefined\<close>, arithmetic on it gives
  \<^verbatim>\<open>NaN\<close>, and every comparison with \<^verbatim>\<open>NaN\<close> is false. \<open>None\<close> stands for both.
\<close>

definition readByte :: "8 word list \<Rightarrow> int \<Rightarrow> int option" where
  "readByte d i = (if 0 \<le> i \<and> i < int (length d) then Some (uint (d ! nat i)) else None)"

fun absDiff :: "int option \<Rightarrow> int option \<Rightarrow> int option" where
  "absDiff (Some a) (Some b) = Some \<bar>a - b\<bar>"
| "absDiff _ _ = None"

fun jsPlus :: "int option \<Rightarrow> int option \<Rightarrow> int option" where
  "jsPlus (Some a) (Some b) = Some (a + b)"
| "jsPlus _ _ = None"

fun jsGreater :: "int option \<Rightarrow> int \<Rightarrow> bool" where
  "jsGreater (Some a) b = (b < a)"
| "jsGreater None b = False"

type_synonym rgb = "int option \<times> int option \<times> int option"

definition pixelAt :: "Canvas \<Rightarrow> int \<Rightarrow> rgb" where
  "pixelAt c i = (readByte (data c) i, readByte (data c) (i + 1), readByte (data c) (i + 2))"

text \<open>
  \<^verbatim>\<open>Math.abs(r - targetR) + Math.abs(g - targetG) + Math.abs(b - targetB)\<close>
\<close>

fun colorDiff :: "rgb \<Rightarrow> rgb \<Rightarrow> int option" where
  "colorDiff (r, g, b) (targetR, targetG, targetB) =
     jsPlus (jsPlus (absDiff r targetR) (absDiff g targetG)) (absDiff b targetB)"

section \<open>Region growing: \<^verbatim>\<open>segmentAtPoint\<close>\<close>

text \<open>
  The loop state. \<open>stack\<close> is the JavaScript array read from its end: the head of the
  list is the element that \<^verbatim>\<open>pop()\<close> returns next. \<open>diffLog\<close> is not a variable of the
  source: it records, in order, the key of every pixel for which the line
  \<^verbatim>\<open>const diff = ...\<close> is executed.
\<close>

record FillState =
  stack :: "(int \<times> int) list"
  visited :: "int set"
  maskData :: "8 word list"
  minX :: int
  minY :: int
  maxX :: int
  maxY :: int
  diffLog :: "int list"

text \<open>
  The source keeps a stack. The queue discipline is the alternative that the
  specification names; it takes the oldest pending pixel instead of the newest.
  \<^verbatim>\<open>stack.push(a, b, c, d)\<close> leaves \<open>d\<close> on top.
\<close>

datatype discipline = Stack | Queue

fun pushAll :: "discipline \<Rightarrow> (int \<times> int) list \<Rightarrow> (int \<times> int) list \<Rightarrow> (int \<times> int) list" where
  "pushAll Stack new pending = rev new @ pending"
| "pushAll Queue new pending = pending @ new"

text \<open>Lines 91-94 of the loop: the four bytes of one mask pixel.\<close>

definition paintWhite :: "8 word list \<Rightarrow> int \<Rightarrow> 8 word list" where
  "paintWhite md i =
     md[nat i := 255, nat (i + 1) := 255, nat (i + 2) := 255, nat (i + 3) := 255]"

text \<open>One iteration of \<^verbatim>\<open>while (stack.length > 0)\<close>.\<close>

definition fillStep :: "discipline \<Rightarrow> Canvas \<Rightarrow> int \<Rightarrow> rgb \<Rightarrow> FillState \<Rightarrow> FillState" where
  "fillStep d c tolerance target st =
     (case stack st of
        [] \<Rightarrow> st
      | (px, py) # rest \<Rightarrow>
          let key = py * width c + px in
          if key \<in> visited st then st\<lparr>stack := rest\<rparr>
          else if px < 0 \<or> px \<ge> width c \<or> py < 0 \<or> py \<ge> height c then st\<lparr>stack := rest\<rparr>
          else
            let i = key * 4;
                diff = colorDiff (pixelAt c i) target
            in if jsGreater diff (tolerance * 3)
               then st\<lparr>stack := rest, diffLog := diffLog st @ [key]\<rparr>
               else st\<lparr> stack := pushAll d [(px + 1, py), (px - 1, py), (px, py + 1), (px, py - 1)] rest,
                        visited := insert key (visited st),
                        maskData := paintWhite (maskData st) i,
                        minX := min (minX st) px,
                        minY := min (minY st) py,
                        maxX := max (maxX st) px,
                        maxY := max (maxY st) py,
                        diffLog := diffLog st @ [key] \<rparr>)"

lemma pixel_key_range:
  fixes px py w h :: int
  assumes "0 \<le> px" "px < w" "0 \<le> py" "py < h"
  shows "0 \<le> py * w + px \<and> py * w + px < w * h"
proof -
  have w: "0 < w" using assms by simp
  have "py + 1 \<le> h" using assms by simp
  then have "(py + 1) * w \<le> h * w" using w by (intro mult_right_mono) simp_all
  then have "py * w + w \<le> w * h" by (simp add: algebra_simps)
  moreover have "0 \<le> py * w" using assms w by simp
  ultimately show ?thesis using assms by simp
qed

text \<open>The four ways through one iteration.\<close>

lemma fillStep_seen:
  assumes "stack st = (px, py) # rest" and "py * width c + px \<in> visited st"
  shows "fillStep d c tolerance target st = st\<lparr>stack := rest\<rparr>"
  using assms by (simp add: fillStep_def)

lemma fillStep_outside:
  assumes "stack st = (px, py) # rest"
    and "\<not> (0 \<le> px \<and> px < width c \<and> 0 \<le> py \<and> py < height c)"
  shows "fillStep d c tolerance target st = st\<lparr>stack := rest\<rparr>"
proof -
  from assms(2) have "(px < 0 \<or> width c \<le> px \<or> py < 0 \<or> height c \<le> py) = True"
    by auto
  then show ?thesis
    unfolding fillStep_def Let_def assms(1) by (simp only: list.case prod.case if_True if_cancel)
qed

lemma fillStep_rejected:
  assumes "stack st = (px, py) # rest" and "py * width c + px \<notin> visited st"
    and "0 \<le> px" "px < width c" "0 \<le> py" "py < height c"
    and "jsGreater (colorDiff (pixelAt c ((py * width c + px) * 4)) target) (tolerance * 3)"
  shows "fillStep d c tolerance target st =
           st\<lparr>stack := rest, diffLog := diffLog st @ [py * width c + px]\<rparr>"
proof -
  have "\<not> (px < 0 \<or> width c \<le> px \<or> py < 0 \<or> height c \<le> py)"
    using assms(3-6) by linarith
  with assms(1,2,7) show ?thesis by (simp add: fillStep_def Let_def)
qed

lemma fillStep_accepted:
  assumes "stack st = (px, py) # rest" and "py * width c + px \<notin> visited st"
    and "0 \<le> px" "px < width c" "0 \<le> py" "py < height c"
    and "\<not> jsGreater (colorDiff (pixelAt c ((py * width c + px) * 4)) target) (tolerance * 3)"
  shows "fillStep d c tolerance target st =
           st\<lparr> stack := pushAll d [(px + 1, py), (px - 1, py), (px, py + 1), (px, py - 1)] rest,
                visited := insert (py * width c + px) (visited st),
                maskData := paintWhite (maskData st) ((py * width c + px) * 4),
                minX := min (minX st) px,
                minY := min (minY st) py,
                maxX := max (maxX st) px,
                maxY := max (maxY st) py,
                diffLog := diffLog st @ [py * width c + px] \<rparr>"
proof -
  have "\<not> (px < 0 \<or> width c \<le> px \<or> py < 0 \<or> height c \<le> py)"
    using assms(3-6) by linarith
  with assms(1,2,7) show ?thesis by (simp add: fillStep_def Let_def)
qed

lemma fillStep_decreases:
  assumes "stack st \<noteq> []"
  shows "card ({0..<width c * height c} - visited (fillStep d c tolerance target st))
           < card ({0..<width c * height c} - visited st)
         \<or> (visited (fillStep d c tolerance target st) = visited st \<and>
            length (stack (fillStep d c tolerance target st)) < length (stack st))"
proof -
  obtain px py rest where s: "stack st = (px, py) # rest"
    using assms by (cases "stack st") auto
  let ?key = "py * width c + px"
  let ?st' = "fillStep d c tolerance target st"
  have shorter: "?st' = st\<lparr>stack := rest\<rparr> \<or>
                 ?st' = st\<lparr>stack := rest, diffLog := diffLog st @ [?key]\<rparr> \<Longrightarrow> ?thesis"
    using s by auto
  show ?thesis
  proof (cases "?key \<in> visited st")
    case True
    from fillStep_seen [OF s True] shorter show ?thesis by simp
  next
    case new: False
    show ?thesis
    proof (cases "0 \<le> px \<and> px < width c \<and> 0 \<le> py \<and> py < height c")
      case False
      from fillStep_outside [OF s False] shorter show ?thesis by simp
    next
      case True
      then have inb: "0 \<le> px" "px < width c" "0 \<le> py" "py < height c" by simp_all
      show ?thesis
      proof (cases "jsGreater (colorDiff (pixelAt c (?key * 4)) target) (tolerance * 3)")
        case True
        from fillStep_rejected [OF s new inb True] shorter show ?thesis by simp
      next
        case False
        have v: "visited ?st' = insert ?key (visited st)"
          by (simp add: fillStep_accepted [OF s new inb False])
        have "?key \<in> {0..<width c * height c}"
          using pixel_key_range [OF inb] by simp
        then have "{0..<width c * height c} - insert ?key (visited st)
                     \<subset> {0..<width c * height c} - visited st"
          using new by blast
        then have "card ({0..<width c * height c} - insert ?key (visited st))
                     < card ({0..<width c * height c} - visited st)"
          by (intro psubset_card_mono) simp_all
        then show ?thesis by (simp add: v)
      qed
    qed
  qed
qed

text \<open>
  The loop. It ends because an iteration either marks a pixel of the canvas that was
  not marked before or shortens the stack without marking anything.
\<close>

function floodFill :: "discipline \<Rightarrow> Canvas \<Rightarrow> int \<Rightarrow> rgb \<Rightarrow> FillState \<Rightarrow> FillState" where
  "floodFill d c tolerance target st =
     (if stack st = [] then st
      else floodFill d c tolerance target (fillStep d c tolerance target st))"
  by pat_completeness auto
termination
proof (relation "measures
    [\<lambda>(d, c, tolerance, target, st). card ({0..<width c * height c} - visited st),
     \<lambda>(d, c, tolerance, target, st). length (stack st)]")
  show "wf (measures
    [\<lambda>(d, c, tolerance, target, st). card ({0..<width c * height c} - visited st),
     \<lambda>(d, c, tolerance, target, st). length (stack st)])"
    by simp
next
  fix d :: discipline and c :: Canvas and tolerance :: int and target :: rgb and st :: FillState
  assume "stack st \<noteq> []"
  from fillStep_decreases [OF this, of c d tolerance target]
  show "((d, c, tolerance, target, fillStep d c tolerance target st), d, c, tolerance, target, st)
        \<in> measures
    [\<lambda>(d, c, tolerance, target, st). card ({0..<width c * height c} - visited st),
     \<lambda>(d, c, tolerance, target, st). length (stack st)]"
    by auto
qed

declare floodFill.simps [simp del]

text \<open>
  The start of \<^verbatim>\<open>segmentAtPoint\<close>: the mask buffer is a fresh
  \<^verbatim>\<open>Uint8ClampedArray(width * height * 4)\<close>, all zero; the bounds start at
  \<open>(width, height, 0, 0)\<close>; the stack holds the floored click position.
\<close>

definition initialFill :: "Canvas \<Rightarrow> int \<Rightarrow> int \<Rightarrow> FillState" where
  "initialFill c sx sy =
     \<lparr> stack = [(sx, sy)], visited = {},
       maskData = replicate (nat (width c * height c * 4)) 0,
       minX = width c, minY = height c, maxX = 0, maxY = 0, diffLog = [] \<rparr>"

definition growRegion :: "discipline \<Rightarrow> int \<Rightarrow> Canvas \<Rightarrow> real \<Rightarrow> real \<Rightarrow> FillState" where
  "growRegion d tolerance c x y =
     (let pixelIndex = (\<lfloor>y\<rfloor> * width c + \<lfloor>x\<rfloor>) * 4;
          target = pixelAt c pixelIndex
      in floodFill d c tolerance target (initialFill c \<lfloor>x\<rfloor> \<lfloor>y\<rfloor>))"

text \<open>\<^verbatim>\<open>// Calculate bounds with padding\<close>\<close>

definition paddedBounds :: "Canvas \<Rightarrow> FillState \<Rightarrow> Bounds" where
  "paddedBounds c st =
     (let padding = 10
      in \<lparr> b_x = max 0 (minX st - padding),
           b_y = max 0 (minY st - padding),
           b_width = min (width c - minX st + padding) (maxX st - minX st + padding * 2),
           b_height = min (height c - minY st + padding) (maxY st - minY st + padding * 2) \<rparr>)"

text \<open>
  \<^verbatim>\<open>segmentAtPoint\<close> of \<^verbatim>\<open>ImageCanvas\<close> (tolerance 40) stores the mask in the project
  store; the one of \<^verbatim>\<open>SegmentationCanvas\<close> (tolerance 32) hands mask and bounds to
  \<^verbatim>\<open>onMaskGenerated\<close>. Both return at once when no image data is loaded. The PNG and
  base64 coding of the mask bytes is the browser's and lossless, so the mask is kept as
  its bytes.
\<close>

definition segmentAtPoint ::
  "string \<Rightarrow> Canvas option \<Rightarrow> real \<Rightarrow> real \<Rightarrow> ProjectState \<Rightarrow> ProjectState" where
  "segmentAtPoint maskId imageData x y s =
     (case imageData of
        None \<Rightarrow> s
      | Some c \<Rightarrow>
          let st = growRegion Stack 40 c x y
          in s\<lparr>currentMask :=
                 Some \<lparr> id_m = maskId, imageData_m = maskData st, bounds = paddedBounds c st \<rparr>\<rparr>)"

definition segmentAtPoint_SegmentationCanvas ::
  "Canvas option \<Rightarrow> real \<Rightarrow> real \<Rightarrow> (8 word list \<times> Bounds) option" where
  "segmentAtPoint_SegmentationCanvas imageData x y =
     (case imageData of
        None \<Rightarrow> None
      | Some c \<Rightarrow>
          let st = growRegion Stack 32 c x y
          in Some (maskData st, paddedBounds c st))"

section \<open>What the region-growing selection computes\<close>

definition inBounds :: "Canvas \<Rightarrow> int \<times> int \<Rightarrow> bool" where
  "inBounds c p = (0 \<le> fst p \<and> fst p < width c \<and> 0 \<le> snd p \<and> snd p < height c)"

definition pixelKey :: "Canvas \<Rightarrow> int \<times> int \<Rightarrow> int" where
  "pixelKey c p = snd p * width c + fst p"

definition neighbours4 :: "int \<times> int \<Rightarrow> (int \<times> int) list" where
  "neighbours4 p = [(fst p + 1, snd p), (fst p - 1, snd p), (fst p, snd p + 1), (fst p, snd p - 1)]"

text \<open>
  The pixels linked to the seed by a 4-connected path of pixels of the canvas that all
  satisfy \<open>ok\<close>; empty when the seed itself does not.
\<close>

inductive_set region :: "Canvas \<Rightarrow> (int \<times> int \<Rightarrow> bool) \<Rightarrow> int \<times> int \<Rightarrow> (int \<times> int) set"
  for c :: Canvas and ok :: "int \<times> int \<Rightarrow> bool" and seed :: "int \<times> int" where
  start: "inBounds c seed \<Longrightarrow> ok seed \<Longrightarrow> seed \<in> region c ok seed"
| grow: "p \<in> region c ok seed \<Longrightarrow> q \<in> set (neighbours4 p) \<Longrightarrow> inBounds c q \<Longrightarrow> ok q
         \<Longrightarrow> q \<in> region c ok seed"

text \<open>The test of the loop, as a predicate on a pixel.\<close>

definition accepts :: "Canvas \<Rightarrow> int \<Rightarrow> rgb \<Rightarrow> int \<times> int \<Rightarrow> bool" where
  "accepts c tolerance target p =
     (\<not> jsGreater (colorDiff (pixelAt c (pixelKey c p * 4)) target) (tolerance * 3))"

text \<open>
  The specification's words: channel \<open>j\<close> of a pixel, the summed absolute differences
  of the R, G and B channels against the seed pixel, and the 4-connected component of the
  seed among the pixels within tolerance.
\<close>

definition channel :: "Canvas \<Rightarrow> int \<times> int \<Rightarrow> nat \<Rightarrow> int" where
  "channel c p j = uint (data c ! (nat (pixelKey c p * 4) + j))"

definition withinTolerance :: "Canvas \<Rightarrow> int \<Rightarrow> int \<times> int \<Rightarrow> int \<times> int \<Rightarrow> bool" where
  "withinTolerance c tolerance seed p =
     (\<bar>channel c p 0 - channel c seed 0\<bar> + \<bar>channel c p 1 - channel c seed 1\<bar>
        + \<bar>channel c p 2 - channel c seed 2\<bar> \<le> tolerance * 3)"

definition component :: "Canvas \<Rightarrow> int \<Rightarrow> int \<times> int \<Rightarrow> (int \<times> int) set" where
  "component c tolerance seed = region c (withinTolerance c tolerance seed) seed"

text \<open>
  A canvas whose byte array has the length that \<^verbatim>\<open>getImageData\<close> gives it, and a
  canvas all of whose pixels have the RGB value of the first one.
\<close>

definition wellFormed :: "Canvas \<Rightarrow> bool" where
  "wellFormed c = (length (data c) = nat (width c * height c * 4))"

definition uniformColor :: "Canvas \<Rightarrow> bool" where
  "uniformColor c =
     (\<forall>k \<in> set [0..width c * height c - 1]. \<forall>j \<in> set [0, 1, 2].
        data c ! (nat (k * 4) + j) = data c ! j)"

text \<open>
  Reading a mask back, as \<^verbatim>\<open>compositeImages\<close>, \<^verbatim>\<open>updateMaskFromCanvas\<close> and
  \<^verbatim>\<open>handleMouseUp\<close> do: a pixel is selected when its red byte exceeds 128.
\<close>

definition decodePixel :: "8 word list \<Rightarrow> int \<Rightarrow> bool" where
  "decodePixel md key = jsGreater (readByte md (key * 4)) 128"

definition selectedPixels :: "Canvas \<Rightarrow> 8 word list \<Rightarrow> (int \<times> int) set" where
  "selectedPixels c md = {p. inBounds c p \<and> decodePixel md (pixelKey c p)}"

text \<open>The invariants of the loop.\<close>

definition fillInv :: "Canvas \<Rightarrow> (int \<times> int \<Rightarrow> bool) \<Rightarrow> int \<times> int \<Rightarrow> FillState \<Rightarrow> bool" where
  "fillInv c ok seed st =
     (visited st \<subseteq> pixelKey c ` region c ok seed \<and>
      (\<forall>p \<in> set (stack st). inBounds c p \<and> ok p \<longrightarrow> p \<in> region c ok seed) \<and>
      (inBounds c seed \<and> ok seed \<longrightarrow> pixelKey c seed \<in> visited st \<or> seed \<in> set (stack st)) \<and>
      (\<forall>p \<in> region c ok seed. pixelKey c p \<in> visited st \<longrightarrow>
         (\<forall>q \<in> set (neighbours4 p). inBounds c q \<and> ok q \<longrightarrow>
            pixelKey c q \<in> visited st \<or> q \<in> set (stack st))))"

definition maskInv :: "Canvas \<Rightarrow> FillState \<Rightarrow> bool" where
  "maskInv c st =
     (length (maskData st) = nat (width c * height c * 4) \<and>
      visited st \<subseteq> {0..<width c * height c} \<and>
      (\<forall>i < length (maskData st).
         maskData st ! i = (if int i div 4 \<in> visited st then 255 else 0)))"

definition logInv :: "Canvas \<Rightarrow> int \<Rightarrow> rgb \<Rightarrow> FillState \<Rightarrow> bool" where
  "logInv c tolerance target st =
     ((\<forall>k \<in> visited st. count_list (diffLog st) k = 1) \<and>
      (\<forall>k \<in> set (diffLog st). k \<notin> visited st \<longrightarrow>
         jsGreater (colorDiff (pixelAt c (k * 4)) target) (tolerance * 3)))"

definition boundsInv :: "Canvas \<Rightarrow> FillState \<Rightarrow> bool" where
  "boundsInv c st =
     (0 \<le> minX st \<and> 0 \<le> minY st \<and> maxX st \<le> max 0 (width c - 1) \<and>
      maxY st \<le> max 0 (height c - 1) \<and>
      (\<forall>p. inBounds c p \<and> pixelKey c p \<in> visited st \<longrightarrow>
           minX st \<le> fst p \<and> fst p \<le> maxX st \<and> minY st \<le> snd p \<and> snd p \<le> maxY st))"

subsection \<open>Concrete canvases\<close>

text \<open>
  A 2 by 2 image whose lower right pixel differs from the other three, and one of a
  single colour.
\<close>

definition twoByTwo :: Canvas where
  "twoByTwo = \<lparr> width = 2, height = 2,
                data = [10, 10, 10, 255,  10, 10, 10, 255,
                        10, 10, 10, 255,  200, 200, 200, 255] \<rparr>"

definition plainTwoByTwo :: Canvas where
  "plainTwoByTwo = \<lparr> width = 2, height = 2,
                data = [10, 10, 10, 255,  10, 10, 10, 255,
                        10, 10, 10, 255,  10, 10, 10, 255] \<rparr>"

section \<open>Mask bytes\<close>

text \<open>
  A mask as the selection code builds it: a zeroed buffer of four bytes per pixel, in
  which the pixels selected are painted by the four assignments of the loop. A binary
  mask is the list of its flags, row by row.
\<close>

definition encodeMask :: "bool list \<Rightarrow> 8 word list" where
  "encodeMask m =
     fold (\<lambda>k md. if m ! k then paintWhite md (int k * 4) else md)
       [0..<length m] (replicate (length m * 4) 0)"

definition decodeMask :: "8 word list \<Rightarrow> nat \<Rightarrow> bool list" where
  "decodeMask d n = map (\<lambda>k. decodePixel d (int k)) [0..<n]"

text \<open>
  The encoding in the specification's words: opaque white for a selected pixel, opaque
  black for any other.
\<close>

definition encodeMask_spec :: "bool list \<Rightarrow> 8 word list" where
  "encodeMask_spec m = concat (map (\<lambda>b. if b then [255, 255, 255, 255] else [0, 0, 0, 255]) m)"

section \<open>Bounds of a painted mask\<close>

text \<open>
  The scan of \<^verbatim>\<open>updateMaskFromCanvas\<close> (\<^verbatim>\<open>ImageCanvas\<close>) and of
  \<^verbatim>\<open>handleMouseUp\<close> (\<^verbatim>\<open>BrushMaskCanvas\<close>): both loops are the same text.
\<close>

record ScanState =
  minX_s :: int
  minY_s :: int
  maxX_s :: int
  maxY_s :: int
  hasWhite :: bool

definition scanPixel :: "Canvas \<Rightarrow> int \<Rightarrow> int \<Rightarrow> ScanState \<Rightarrow> ScanState" where
  "scanPixel mc y x st =
     (let i = (y * width mc + x) * 4
      in if jsGreater (readByte (data mc) i) 128
         then st\<lparr> hasWhite := True,
                  minX_s := min (minX_s st) x, minY_s := min (minY_s st) y,
                  maxX_s := max (maxX_s st) x, maxY_s := max (maxY_s st) y \<rparr>
         else st)"

definition scanMask :: "Canvas \<Rightarrow> ScanState" where
  "scanMask mc =
     fold (\<lambda>y st. fold (scanPixel mc y) [0..width mc - 1] st) [0..height mc - 1]
       \<lparr> minX_s = width mc, minY_s = height mc, maxX_s = 0, maxY_s = 0, hasWhite = False \<rparr>"

definition scannedMask :: "string \<Rightarrow> Canvas \<Rightarrow> ScanState \<Rightarrow> Mask" where
  "scannedMask maskId mc sc =
     \<lparr> id_m = maskId, imageData_m = data mc,
       bounds = \<lparr> b_x = minX_s sc, b_y = minY_s sc,
                  b_width = maxX_s sc - minX_s sc, b_height = maxY_s sc - minY_s sc \<rparr> \<rparr>"

text \<open>
  \<^verbatim>\<open>ImageCanvas\<close>: \<^verbatim>\<open>updateMaskFromCanvas\<close> and the \<^verbatim>\<open>handleBrushEnd\<close> that calls it.
  The flag \<open>isDrawing\<close> is component state; the functions return its new value with
  the store.
\<close>

definition updateMaskFromCanvas :: "string \<Rightarrow> Canvas option \<Rightarrow> ProjectState \<Rightarrow> ProjectState" where
  "updateMaskFromCanvas maskId maskCanvas s =
     (case maskCanvas of
        None \<Rightarrow> s
      | Some mc \<Rightarrow>
          let sc = scanMask mc
          in if hasWhite sc then s\<lparr>currentMask := Some (scannedMask maskId mc sc)\<rparr>
             else s\<lparr>currentMask := None\<rparr>)"

definition handleBrushEnd ::
  "string \<Rightarrow> bool \<Rightarrow> Canvas option \<Rightarrow> ProjectState \<Rightarrow> bool \<times> ProjectState" where
  "handleBrushEnd maskId isDrawing maskCanvas s =
     (if \<not> isDrawing then (isDrawing, s)
      else (False, updateMaskFromCanvas maskId maskCanvas s))"

text \<open>\<^verbatim>\<open>BrushMaskCanvas\<close>: \<^verbatim>\<open>handleMouseUp\<close>. Its \<^verbatim>\<open>if (hasWhite)\<close> has no else branch.\<close>

definition handleMouseUp ::
  "string \<Rightarrow> bool \<Rightarrow> Canvas option \<Rightarrow> ProjectState \<Rightarrow> bool \<times> ProjectState" where
  "handleMouseUp maskId isDrawing maskCanvas s =
     (if \<not> isDrawing then (isDrawing, s)
      else case maskCanvas of
             None \<Rightarrow> (False, s)
           | Some mc \<Rightarrow>
               let sc = scanMask mc
               in if hasWhite sc then (False, s\<lparr>currentMask := Some (scannedMask maskId mc sc)\<rparr>)
                  else (False, s))"

text \<open>A mask canvas without a selected pixel.\<close>

definition allUnselected :: "Canvas \<Rightarrow> bool" where
  "allUnselected mc =
     (\<forall>y \<in> set [0..height mc - 1]. \<forall>x \<in> set [0..width mc - 1].
        \<not> decodePixel (data mc) (y * width mc + x))"

subsection \<open>Concrete canvases\<close>

definition blackTwoByTwo :: Canvas where
  "blackTwoByTwo = \<lparr> width = 2, height = 2,
                      data = [0, 0, 0, 255,  0, 0, 0, 255,  0, 0, 0, 255,  0, 0, 0, 255] \<rparr>"

definition staleMask :: Mask where
  "staleMask = \<lparr> id_m = ''m0'', imageData_m = [255, 255, 255, 255],
                 bounds = \<lparr> b_x = 0, b_y = 0, b_width = 0, b_height = 0 \<rparr> \<rparr>"

section \<open>Properties of the version store\<close>

lemma walkHistory_None: "walkHistory p None h = Some h"
  by (simp add: walkHistory.simps)

lemma walkHistory_Some: "walkHistory p (Some v) h = walkHistory p (parentOf p v) (v # h)"
  by (subst walkHistory.simps) simp

lemma linked_snoc:
  "linked p r \<Longrightarrow> r \<noteq> [] \<Longrightarrow> parentOf p v = Some (last r) \<Longrightarrow> linked p (r @ [v])"
  by (induction p r rule: linked.induct) auto

lemma parentOf_index:
  assumes "parentOf p v = Some u"
  shows "\<exists>k < length (versions p). versions p ! k = u \<and> parentId v = Some (id_v u)"
  using assms unfolding parentOf_def
  by (auto split: option.splits if_splits simp: find_Some_iff)

lemma walk_from_index:
  assumes acyc: "parentsEarlier (versions p)"
  shows "i < length (versions p) \<Longrightarrow>
         \<exists>r. walkHistory p (Some (versions p ! i)) h = Some (r @ h) \<and> isHistoryOf p (versions p ! i) r"
proof (induction i arbitrary: h rule: less_induct)
  case (less i)
  let ?v = "versions p ! i"
  show ?case
  proof (cases "parentOf p ?v")
    case None
    then have "walkHistory p (Some ?v) h = Some ([?v] @ h)"
      by (simp add: walkHistory_Some walkHistory_None)
    moreover have "isHistoryOf p ?v [?v]"
      using None less.prems by (simp add: isHistoryOf_def)
    ultimately show ?thesis by blast
  next
    case (Some u)
    then obtain k where k: "k < length (versions p)" "versions p ! k = u"
      and par: "parentId ?v = Some (id_v u)"
      using parentOf_index by blast
    have "k < i"
    proof (rule ccontr)
      assume "\<not> k < i"
      then have "i \<le> k" by simp
      with acyc less.prems k par show False
        unfolding parentsEarlier_def by blast
    qed
    from less.IH [OF this k(1), of "?v # h"] k(2)
    obtain r where r: "walkHistory p (Some u) (?v # h) = Some (r @ ?v # h)"
      and hr: "isHistoryOf p u r" by blast
    have "walkHistory p (Some ?v) h = Some ((r @ [?v]) @ h)"
      using Some r by (simp add: walkHistory_Some)
    moreover have "isHistoryOf p ?v (r @ [?v])"
      using hr Some less.prems by (auto simp: isHistoryOf_def linked_snoc)
    ultimately show ?thesis by blast
  qed
qed

lemma parentsEarlier_single: "parentId v = None \<Longrightarrow> parentsEarlier [v]"
  by (simp add: parentsEarlier_def)

lemma parentsEarlier_snoc:
  assumes "parentsEarlier vs"
    and "\<forall>v \<in> set vs. parentId v \<noteq> Some (id_v nv)"
    and "parentId nv \<noteq> Some (id_v nv)"
  shows "parentsEarlier (vs @ [nv])"
  unfolding parentsEarlier_def
proof (intro allI impI)
  fix i j
  assume i: "i < length (vs @ [nv])" and j: "j < length (vs @ [nv])" and ij: "i \<le> j"
  show "parentId ((vs @ [nv]) ! i) \<noteq> Some (id_v ((vs @ [nv]) ! j))"
  proof (cases "j < length vs")
    case True
    with ij assms(1) show ?thesis
      by (simp add: parentsEarlier_def nth_append)
  next
    case False
    with j have jl: "j = length vs" by simp
    show ?thesis
    proof (cases "i < length vs")
      case True
      then have "vs ! i \<in> set vs" by simp
      with assms(2) jl True show ?thesis by (simp add: nth_append)
    next
      case False
      with i have "i = length vs" by simp
      with jl assms(3) show ?thesis by simp
    qed
  qed
qed

lemma storeInv_initial: "storeInv initialState"
  by (simp add: storeInv_def initialState_def)

lemma storeInv_create:
  "versionId \<noteq> [] \<Longrightarrow> storeInv (createProject projectId versionId now nm url s)"
  by (simp add: storeInv_def createProject_def parentsEarlier_single)

lemma storeInv_set: "storeInv s \<Longrightarrow> storeInv (setCurrentVersion now versionId s)"
  by (auto simp: storeInv_def setCurrentVersion_def split: option.splits)

lemma addVersion_project_None:
  "project s = None \<Longrightarrow> snd (addVersion versionId now url prmpt msk parent s) = s"
  by (simp add: addVersion_def)

lemma addVersion_project_Some:
  "project s = Some p \<Longrightarrow>
   project (snd (addVersion versionId now url prmpt msk parent s)) =
     Some (p\<lparr> versions := versions p @ [fst (addVersion versionId now url prmpt msk parent s)],
               currentVersionId := versionId, updatedAt := now \<rparr>)"
  by (simp add: addVersion_def Let_def)

lemma addVersion_fst:
  "fst (addVersion versionId now url prmpt msk parent s) =
     \<lparr> id_v = versionId, imageUrl = url, parentId = Some parent,
       prompt = prmpt, mask = msk, flaws = [], createdAt_v = now \<rparr>"
  by (simp add: addVersion_def Let_def)

lemma storeInv_add:
  assumes "storeInv s" and "freshId s parent versionId"
  shows "storeInv (snd (addVersion versionId now url prmpt msk parent s))"
proof (cases "project s")
  case None
  with assms(1) show ?thesis by (simp add: addVersion_project_None)
next
  case (Some p)
  let ?nv = "\<lparr> id_v = versionId, imageUrl = url, parentId = Some parent,
              prompt = prmpt, mask = msk, flaws = [], createdAt_v = now \<rparr>"
  from assms Some have inv: "versions p \<noteq> []" "parentsEarlier (versions p)"
    "\<forall>v \<in> set (versions p). id_v v \<noteq> []"
    "\<forall>i < length (versions p). (parentId (versions p ! i) = None) = (i = 0)"
    by (simp_all add: storeInv_def)
  from assms(2) Some have fr: "versionId \<noteq> []" "versionId \<noteq> parent"
    "\<forall>v \<in> set (versions p). parentId v \<noteq> Some versionId"
    by (simp_all add: freshId_def)
  have pe: "parentsEarlier (versions p @ [?nv])"
    using inv(2) fr(2,3) by (intro parentsEarlier_snoc) auto
  have root: "\<forall>i < length (versions p @ [?nv]).
                (parentId ((versions p @ [?nv]) ! i) = None) = (i = 0)"
  proof (intro allI impI)
    fix i assume i: "i < length (versions p @ [?nv])"
    show "(parentId ((versions p @ [?nv]) ! i) = None) = (i = 0)"
    proof (cases "i < length (versions p)")
      case True
      with inv(4) show ?thesis by (simp add: nth_append)
    next
      case False
      with i have "i = length (versions p)" by simp
      with inv(1) show ?thesis by simp
    qed
  qed
  show ?thesis
    using pe root inv(3) fr(1)
    by (simp add: storeInv_def addVersion_project_Some [OF Some] addVersion_fst)
qed

lemma reachable_storeInv: "reachable s \<Longrightarrow> storeInv s"
  by (induction rule: reachable.induct)
     (simp_all add: storeInv_initial storeInv_create storeInv_add storeInv_set)

lemma walk_from_member:
  assumes "parentsEarlier (versions p)" and "v \<in> set (versions p)"
  shows "\<exists>h. walkHistory p (Some v) [] = Some h \<and> isHistoryOf p v h"
proof -
  from assms(2) obtain i where "i < length (versions p)" "versions p ! i = v"
    by (auto simp: in_set_conv_nth)
  with walk_from_index [OF assms(1), of i "[]"] show ?thesis by auto
qed

lemma getCurrentVersion_member:
  "project s = Some p \<Longrightarrow> getCurrentVersion s = Some c \<Longrightarrow> c \<in> set (versions p)"
  by (auto simp: getCurrentVersion_def find_Some_iff)

lemma history_starts_at_root:
  assumes inv: "storeInv s" and p: "project s = Some p"
    and h: "isHistoryOf p v h"
    and closed: "\<forall>u \<in> set (versions p). \<forall>pid. parentId u = Some pid \<longrightarrow> pid \<in> id_v ` set (versions p)"
  shows "hd h = hd (versions p)"
proof -
  from h have hd_in: "hd h \<in> set (versions p)" and stop: "parentOf p (hd h) = None"
    by (auto simp: isHistoryOf_def)
  have "parentId (hd h) = None"
  proof (cases "parentId (hd h)")
    case None then show ?thesis .
  next
    case (Some pid)
    with closed hd_in obtain u where u: "u \<in> set (versions p)" "id_v u = pid" by auto
    with inv p have "pid \<noteq> []" by (auto simp: storeInv_def)
    moreover from u have "find (\<lambda>w. id_v w = pid) (versions p) \<noteq> None"
      by (auto simp: find_None_iff)
    ultimately have "parentOf p (hd h) \<noteq> None"
      using Some by (simp add: parentOf_def)
    with stop show ?thesis by simp
  qed
  moreover from hd_in obtain i where i: "i < length (versions p)" "versions p ! i = hd h"
    by (auto simp: in_set_conv_nth)
  ultimately have "i = 0" using inv p by (auto simp: storeInv_def)
  with i inv p show ?thesis by (auto simp: storeInv_def hd_conv_nth)
qed

lemma exampleRoot_project:
  "project exampleRoot =
     Some \<lparr> id_p = ''p1'', name = ''kitchen'', versions = [exampleR],
            currentVersionId = ''r'', createdAt_p = 1, updatedAt = 1 \<rparr>"
  by (simp add: exampleRoot_def exampleR_def createProject_def initialState_def)

lemma exampleFork_project:
  "project exampleFork =
     Some \<lparr> id_p = ''p1'', name = ''kitchen'', versions = [exampleR, exampleA, exampleB],
            currentVersionId = ''b'', createdAt_p = 1, updatedAt = 3 \<rparr>"
  by (simp add: exampleFork_def addVersion_def Let_def exampleRoot_project exampleA_def exampleB_def)

lemma exampleFork_reachable: "reachable exampleFork"
proof -
  have r0: "reachable exampleRoot"
    unfolding exampleRoot_def by (rule r_create [OF r_init]) simp
  have f1: "freshId exampleRoot ''r'' ''a''"
    by (simp add: freshId_def exampleRoot_project exampleR_def)
  let ?s1 = "snd (addVersion ''a'' 2 ''data:a'' ''warmer light'' None ''r'' exampleRoot)"
  have r1: "reachable ?s1" by (rule r_add [OF r0 f1])
  have f2: "freshId ?s1 ''r'' ''b''"
    by (simp add: freshId_def addVersion_def Let_def exampleRoot_project exampleR_def)
  show ?thesis unfolding exampleFork_def by (rule r_add [OF r1 f2])
qed

lemma history_root:
  assumes inv: "storeInv s" and p: "project s = Some p"
    and h: "isHistoryOf p v h" and stored: "parentsStored p"
  shows "hd h = hd (versions p) \<and> parentId (hd h) = None"
proof -
  from stored have "\<forall>u \<in> set (versions p). \<forall>pid. parentId u = Some pid \<longrightarrow>
                      pid \<in> id_v ` set (versions p)"
    by (simp add: parentsStored_def)
  from history_starts_at_root [OF inv p h this] have hd: "hd h = hd (versions p)" .
  from inv p have "versions p \<noteq> []" "parentId (versions p ! 0) = None"
    by (simp_all add: storeInv_def)
  then have "parentId (hd (versions p)) = None" by (simp add: hd_conv_nth)
  with hd show ?thesis by simp
qed

lemma ghostStore_project:
  "project ghostStore =
     Some \<lparr> id_p = ''p1'', name = ''kitchen'', versions = [exampleR, ghostA],
            currentVersionId = ''a'', createdAt_p = 1, updatedAt = 2 \<rparr>"
  by (simp add: ghostStore_def addVersion_def Let_def exampleRoot_project ghostA_def)

lemma ghostStore_reachable: "reachable ghostStore"
proof -
  have r0: "reachable exampleRoot"
    unfolding exampleRoot_def by (rule r_create [OF r_init]) simp
  have f1: "freshId exampleRoot ''ghost'' ''a''"
    by (simp add: freshId_def exampleRoot_project exampleR_def)
  show ?thesis unfolding ghostStore_def by (rule r_add [OF r0 f1])
qed

section \<open>Correctness of the region-growing loop\<close>

lemma floodFill_done: "stack st = [] \<Longrightarrow> floodFill d c tolerance target st = st"
  by (simp add: floodFill.simps)

lemma floodFill_more:
  "stack st \<noteq> [] \<Longrightarrow>
   floodFill d c tolerance target st = floodFill d c tolerance target (fillStep d c tolerance target st)"
  by (subst floodFill.simps) simp

lemma floodFill_invariant:
  assumes step: "\<And>s. P s \<Longrightarrow> stack s \<noteq> [] \<Longrightarrow> P (fillStep d c tolerance target s)"
  shows "P st \<Longrightarrow> P (floodFill d c tolerance target st) \<and> stack (floodFill d c tolerance target st) = []"
  using step
proof (induction d c tolerance target st rule: floodFill.induct)
  case (1 d c tolerance target st)
  show ?case
  proof (cases "stack st = []")
    case True
    then have "floodFill d c tolerance target st = st" by (rule floodFill_done)
    with "1.prems"(1) True show ?thesis by simp
  next
    case False
    have "P (fillStep d c tolerance target st)"
      using "1.prems" False by blast
    from "1.IH" [OF False this "1.prems"(2)] show ?thesis
      by (subst (1 2) floodFill_more [OF False])
  qed
qed

lemma pixelKey_inj:
  assumes "inBounds c p" "inBounds c q" "pixelKey c p = pixelKey c q"
  shows "p = q"
proof -
  have w: "0 < width c" using assms(1) by (simp add: inBounds_def)
  have "(snd p * width c + fst p) div width c = snd p"
    using assms(1) w by (simp add: inBounds_def)
  moreover have "(snd q * width c + fst q) div width c = snd q"
    using assms(2) w by (simp add: inBounds_def)
  ultimately have s: "snd p = snd q" using assms(3) by (simp add: pixelKey_def)
  with assms(3) have "fst p = fst q" by (simp add: pixelKey_def)
  with s show ?thesis by (simp add: prod_eq_iff)
qed

lemma region_inBounds: "p \<in> region c ok seed \<Longrightarrow> inBounds c p \<and> ok p"
  by (induction rule: region.induct) auto

lemma set_pushAll: "set (pushAll d new pending) = set new \<union> set pending"
  by (cases d) auto

lemma fillInvD1: "fillInv c ok seed st \<Longrightarrow> visited st \<subseteq> pixelKey c ` region c ok seed"
  by (simp add: fillInv_def)

lemma fillInvD2:
  "fillInv c ok seed st \<Longrightarrow> p \<in> set (stack st) \<Longrightarrow> inBounds c p \<Longrightarrow> ok p \<Longrightarrow> p \<in> region c ok seed"
  by (simp add: fillInv_def)

lemma fillInvD3:
  "fillInv c ok seed st \<Longrightarrow> inBounds c seed \<Longrightarrow> ok seed \<Longrightarrow>
   pixelKey c seed \<in> visited st \<or> seed \<in> set (stack st)"
  by (simp add: fillInv_def)

lemma fillInvD4:
  "fillInv c ok seed st \<Longrightarrow> p \<in> region c ok seed \<Longrightarrow> pixelKey c p \<in> visited st \<Longrightarrow>
   q \<in> set (neighbours4 p) \<Longrightarrow> inBounds c q \<Longrightarrow> ok q \<Longrightarrow>
   pixelKey c q \<in> visited st \<or> q \<in> set (stack st)"
  by (simp add: fillInv_def)

lemma fillInv_step:
  assumes inv: "fillInv c (accepts c tolerance target) seed st" and ne: "stack st \<noteq> []"
  shows "fillInv c (accepts c tolerance target) seed (fillStep d c tolerance target st)"
proof -
  let ?ok = "accepts c tolerance target"
  let ?R = "region c ?ok seed"
  obtain px py rest where s: "stack st = (px, py) # rest"
    using ne by (cases "stack st") auto
  let ?key = "py * width c + px"
  have key: "pixelKey c (px, py) = ?key" by (simp add: pixelKey_def)
  note i1 = fillInvD1 [OF inv] and i2 = fillInvD2 [OF inv] and i3 = fillInvD3 [OF inv]
    and i4 = fillInvD4 [OF inv]
  have drop: "fillInv c ?ok seed st'"
    if st': "visited st' = visited st" "stack st' = rest"
      and useless: "pixelKey c (px, py) \<in> visited st \<or> \<not> (inBounds c (px, py) \<and> ?ok (px, py))"
    for st'
    unfolding fillInv_def
  proof (intro conjI ballI impI)
    show "visited st' \<subseteq> pixelKey c ` ?R" using i1 st' by simp
  next
    fix p assume "p \<in> set (stack st')" "inBounds c p \<and> ?ok p"
    then show "p \<in> ?R" using i2 [of p] st' s by simp
  next
    assume "inBounds c seed \<and> ?ok seed"
    with i3 have "pixelKey c seed \<in> visited st \<or> seed \<in> set (stack st)" by simp
    then show "pixelKey c seed \<in> visited st' \<or> seed \<in> set (stack st')"
      using useless \<open>inBounds c seed \<and> ?ok seed\<close> st' s by auto
  next
    fix p q
    assume "p \<in> ?R" "pixelKey c p \<in> visited st'" "q \<in> set (neighbours4 p)" "inBounds c q \<and> ?ok q"
    with i4 [of p q] st' have "pixelKey c q \<in> visited st \<or> q \<in> set (stack st)" by simp
    then show "pixelKey c q \<in> visited st' \<or> q \<in> set (stack st')"
      using useless \<open>inBounds c q \<and> ?ok q\<close> st' s by auto
  qed
  show ?thesis
  proof (cases "?key \<in> visited st")
    case True
    show ?thesis
      unfolding fillStep_seen [OF s True]
      by (rule drop) (simp_all add: key True)
  next
    case new: False
    show ?thesis
    proof (cases "0 \<le> px \<and> px < width c \<and> 0 \<le> py \<and> py < height c")
      case False
      show ?thesis
        unfolding fillStep_outside [OF s False]
        by (rule drop) (use False in \<open>auto simp: inBounds_def\<close>)
    next
      case True
      then have inb: "0 \<le> px" "px < width c" "0 \<le> py" "py < height c" by simp_all
      have inB: "inBounds c (px, py)" using True by (simp add: inBounds_def)
      show ?thesis
      proof (cases "jsGreater (colorDiff (pixelAt c (?key * 4)) target) (tolerance * 3)")
        case True
        show ?thesis
          unfolding fillStep_rejected [OF s new inb True]
          by (rule drop) (use True in \<open>simp_all add: accepts_def key\<close>)
      next
        case False
        then have ok: "?ok (px, py)" by (simp add: accepts_def key)
        have inR: "(px, py) \<in> ?R" using i2 [of "(px, py)"] s inB ok by simp
        let ?st' = "fillStep d c tolerance target st"
        have v': "visited ?st' = insert ?key (visited st)"
          and s': "set (stack ?st') = set (neighbours4 (px, py)) \<union> set rest"
          by (simp_all add: fillStep_accepted [OF s new inb False] set_pushAll neighbours4_def)
        show ?thesis unfolding fillInv_def
        proof (intro conjI ballI impI)
          show "visited ?st' \<subseteq> pixelKey c ` ?R"
            using i1 inR key unfolding v' by force
        next
          fix p assume p: "p \<in> set (stack ?st')" "inBounds c p \<and> ?ok p"
          show "p \<in> ?R"
          proof (cases "p \<in> set (neighbours4 (px, py))")
            case True
            with inR p(2) show ?thesis by (blast intro: region.grow)
          next
            case False
            with p s' have "p \<in> set (stack st)" by (simp add: s)
            with i2 p(2) show ?thesis by blast
          qed
        next
          assume "inBounds c seed \<and> ?ok seed"
          with i3 have "pixelKey c seed \<in> visited st \<or> seed \<in> set (stack st)" by simp
          then show "pixelKey c seed \<in> visited ?st' \<or> seed \<in> set (stack ?st')"
            unfolding v' s' using s key by auto
        next
          fix p q
          assume p: "p \<in> ?R" "pixelKey c p \<in> visited ?st'"
            and q: "q \<in> set (neighbours4 p)" "inBounds c q \<and> ?ok q"
          show "pixelKey c q \<in> visited ?st' \<or> q \<in> set (stack ?st')"
          proof (cases "pixelKey c p = ?key")
            case True
            with pixelKey_inj [of c p "(px, py)"] region_inBounds [OF p(1)] inB key
            have "p = (px, py)" by simp
            with q(1) show ?thesis unfolding s' by simp
          next
            case False
            with p(2) have "pixelKey c p \<in> visited st" unfolding v' by simp
            from i4 [OF p(1) this q(1)] q(2)
            have "pixelKey c q \<in> visited st \<or> q \<in> set (stack st)" by simp
            then show ?thesis unfolding v' s' using s key by auto
          qed
        qed
      qed
    qed
  qed
qed

lemma fillInv_initial: "fillInv c ok (sx, sy) (initialFill c sx sy)"
  unfolding fillInv_def by (auto simp: initialFill_def intro: region.start)

lemma fillInv_final:
  assumes inv: "fillInv c ok seed st" and fin: "stack st = []"
  shows "visited st = pixelKey c ` region c ok seed"
proof
  show "visited st \<subseteq> pixelKey c ` region c ok seed" by (rule fillInvD1 [OF inv])
next
  have "pixelKey c p \<in> visited st" if "p \<in> region c ok seed" for p
    using that
  proof (induction rule: region.induct)
    case start
    with fillInvD3 [OF inv] fin show ?case by simp
  next
    case (grow p q)
    with fillInvD4 [OF inv grow.hyps(1) grow.IH grow.hyps(2)] fin show ?case by simp
  qed
  then show "pixelKey c ` region c ok seed \<subseteq> visited st" by blast
qed

lemma floodFill_visited:
  "visited (floodFill d c tolerance target (initialFill c sx sy)) =
     pixelKey c ` region c (accepts c tolerance target) (sx, sy)"
proof -
  let ?ok = "accepts c tolerance target"
  have "fillInv c ?ok (sx, sy) (floodFill d c tolerance target (initialFill c sx sy)) \<and>
        stack (floodFill d c tolerance target (initialFill c sx sy)) = []"
    by (rule floodFill_invariant [where P = "fillInv c ?ok (sx, sy)"])
       (simp_all add: fillInv_step fillInv_initial)
  then show ?thesis by (simp add: fillInv_final)
qed

lemma paintWhite_length: "length (paintWhite md i) = length md"
  by (simp add: paintWhite_def)

lemma paintWhite_nth:
  assumes "0 \<le> k" and "nat (k * 4) + 3 < length md" and "i < length md"
  shows "paintWhite md (k * 4) ! i = (if int i div 4 = k then 255 else md ! i)"
proof -
  have "int i div 4 = k \<longleftrightarrow> (i = nat (k * 4) \<or> i = nat (k * 4 + 1) \<or> i = nat (k * 4 + 2) \<or> i = nat (k * 4 + 3))"
    using assms(1) by arith
  moreover have "nat (k * 4 + 1) = nat (k * 4) + 1" "nat (k * 4 + 2) = nat (k * 4) + 2"
    "nat (k * 4 + 3) = nat (k * 4) + 3"
    using assms(1) by simp_all
  ultimately show ?thesis
    using assms(2,3) by (simp add: paintWhite_def nth_list_update)
qed

lemma maskInv_initial: "maskInv c (initialFill c sx sy)"
  by (simp add: maskInv_def initialFill_def)

lemma maskInv_step:
  assumes inv: "maskInv c st" and ne: "stack st \<noteq> []"
  shows "maskInv c (fillStep d c tolerance target st)"
proof -
  obtain px py rest where s: "stack st = (px, py) # rest"
    using ne by (cases "stack st") auto
  let ?key = "py * width c + px"
  have same: "maskInv c st'" if "visited st' = visited st" "maskData st' = maskData st" for st'
    using inv that by (simp add: maskInv_def)
  show ?thesis
  proof (cases "?key \<in> visited st")
    case True
    show ?thesis unfolding fillStep_seen [OF s True] by (rule same) simp_all
  next
    case new: False
    show ?thesis
    proof (cases "0 \<le> px \<and> px < width c \<and> 0 \<le> py \<and> py < height c")
      case False
      show ?thesis unfolding fillStep_outside [OF s False] by (rule same) simp_all
    next
      case True
      then have inb: "0 \<le> px" "px < width c" "0 \<le> py" "py < height c" by simp_all
      show ?thesis
      proof (cases "jsGreater (colorDiff (pixelAt c (?key * 4)) target) (tolerance * 3)")
        case True
        show ?thesis unfolding fillStep_rejected [OF s new inb True] by (rule same) simp_all
      next
        case False
        have kr: "0 \<le> ?key" "?key < width c * height c"
          using pixel_key_range [OF inb] by simp_all
        have len: "length (maskData st) = nat (width c * height c * 4)"
          using inv by (simp add: maskInv_def)
        have fits: "nat (?key * 4) + 3 < length (maskData st)"
          using kr len by simp
        have old: "maskData st ! i = (if int i div 4 \<in> visited st then 255 else 0)"
          if "i < length (maskData st)" for i
          using inv that by (simp add: maskInv_def)
        have sub: "visited st \<subseteq> {0..<width c * height c}"
          using inv by (simp add: maskInv_def)
        let ?md = "paintWhite (maskData st) (?key * 4)"
        have new_bytes: "?md ! i = (if int i div 4 \<in> insert ?key (visited st) then 255 else 0)"
          if "i < length ?md" for i
        proof -
          from that have i: "i < length (maskData st)" by (simp add: paintWhite_length)
          show ?thesis
            unfolding paintWhite_nth [OF kr(1) fits i] using old [OF i] by simp
        qed
        have "length ?md = nat (width c * height c * 4)"
          using len by (simp add: paintWhite_length)
        moreover have "insert ?key (visited st) \<subseteq> {0..<width c * height c}"
          using kr sub by simp
        ultimately have "maskInv c (st\<lparr> visited := insert ?key (visited st), maskData := ?md \<rparr>)"
          using new_bytes by (simp add: maskInv_def)
        then show ?thesis
          unfolding fillStep_accepted [OF s new inb False] by (simp add: maskInv_def)
      qed
    qed
  qed
qed

lemma floodFill_maskInv: "maskInv c (floodFill d c tolerance target (initialFill c sx sy))"
proof -
  have "maskInv c (floodFill d c tolerance target (initialFill c sx sy)) \<and>
        stack (floodFill d c tolerance target (initialFill c sx sy)) = []"
    by (rule floodFill_invariant [where P = "maskInv c"])
       (simp_all add: maskInv_step maskInv_initial)
  then show ?thesis by simp
qed

lemma maskInv_decode:
  assumes inv: "maskInv c st" and k: "0 \<le> k" "k < width c * height c"
  shows "decodePixel (maskData st) k \<longleftrightarrow> k \<in> visited st"
proof -
  have len: "length (maskData st) = nat (width c * height c * 4)"
    using inv by (simp add: maskInv_def)
  have i: "nat (k * 4) < length (maskData st)" using k len by simp
  have "maskData st ! nat (k * 4) = (if int (nat (k * 4)) div 4 \<in> visited st then 255 else 0)"
    using inv i by (simp add: maskInv_def)
  moreover have "int (nat (k * 4)) div 4 = k" using k by simp
  ultimately have "maskData st ! nat (k * 4) = (if k \<in> visited st then 255 else 0)" by simp
  moreover have "readByte (maskData st) (k * 4) = Some (uint (maskData st ! nat (k * 4)))"
    using i k by (simp add: readByte_def)
  ultimately show ?thesis by (simp add: decodePixel_def)
qed

lemma selectedPixels_region:
  "selectedPixels c (maskData (floodFill d c tolerance target (initialFill c sx sy))) =
     region c (accepts c tolerance target) (sx, sy)"
proof -
  let ?st = "floodFill d c tolerance target (initialFill c sx sy)"
  let ?R = "region c (accepts c tolerance target) (sx, sy)"
  have dec: "decodePixel (maskData ?st) (pixelKey c p) \<longleftrightarrow> pixelKey c p \<in> pixelKey c ` ?R"
    if "inBounds c p" for p
  proof -
    have "0 \<le> pixelKey c p \<and> pixelKey c p < width c * height c"
      using that pixel_key_range [of "fst p" "width c" "snd p" "height c"]
      by (simp add: inBounds_def pixelKey_def)
    with maskInv_decode [OF floodFill_maskInv] show ?thesis
      by (simp add: floodFill_visited)
  qed
  show ?thesis
  proof (intro set_eqI iffI)
    fix p assume "p \<in> selectedPixels c (maskData ?st)"
    then have p: "inBounds c p" "decodePixel (maskData ?st) (pixelKey c p)"
      by (simp_all add: selectedPixels_def)
    with dec obtain q where q: "q \<in> ?R" "pixelKey c p = pixelKey c q" by blast
    with pixelKey_inj [OF p(1)] region_inBounds [OF q(1)] show "p \<in> ?R" by blast
  next
    fix p assume "p \<in> ?R"
    with dec [of p] region_inBounds [of p] show "p \<in> selectedPixels c (maskData ?st)"
      by (simp add: selectedPixels_def)
  qed
qed

lemma growRegion_unfold:
  "growRegion d tolerance c x y =
     floodFill d c tolerance (pixelAt c (pixelKey c (\<lfloor>x\<rfloor>, \<lfloor>y\<rfloor>) * 4)) (initialFill c \<lfloor>x\<rfloor> \<lfloor>y\<rfloor>)"
  by (simp add: growRegion_def pixelKey_def Let_def)

lemma maskInv_determines:
  assumes "maskInv c st" "maskInv c st'" "visited st = visited st'"
  shows "maskData st = maskData st'"
proof (rule nth_equalityI)
  show "length (maskData st) = length (maskData st')"
    using assms by (simp add: maskInv_def)
next
  fix i assume "i < length (maskData st)"
  moreover from this have "i < length (maskData st')" using assms by (simp add: maskInv_def)
  ultimately show "maskData st ! i = maskData st' ! i"
    using assms by (simp add: maskInv_def)
qed

lemma growRegion_same_mask:
  "maskData (growRegion Stack tolerance c x y) = maskData (growRegion Queue tolerance c x y)"
  unfolding growRegion_unfold
  by (rule maskInv_determines [where c = c]) (simp_all add: floodFill_maskInv floodFill_visited)

lemma pixelAt_channel:
  assumes wf: "wellFormed c" and p: "inBounds c p"
  shows "pixelAt c (pixelKey c p * 4) = (Some (channel c p 0), Some (channel c p 1), Some (channel c p 2))"
proof -
  have k: "0 \<le> pixelKey c p" "pixelKey c p < width c * height c"
    using p pixel_key_range [of "fst p" "width c" "snd p" "height c"]
    by (simp_all add: inBounds_def pixelKey_def)
  have len: "int (length (data c)) = width c * height c * 4"
    using wf k by (simp add: wellFormed_def)
  have rd: "readByte (data c) (pixelKey c p * 4 + int j) = Some (channel c p j)" if "j < 4" for j
  proof -
    have "nat (pixelKey c p * 4 + int j) = nat (pixelKey c p * 4) + j"
      using k by (simp add: nat_add_distrib)
    moreover have "0 \<le> pixelKey c p * 4 + int j" "pixelKey c p * 4 + int j < int (length (data c))"
      using k that len by simp_all
    ultimately show ?thesis by (simp add: readByte_def channel_def)
  qed
  from rd [of 0] rd [of 1] rd [of 2] show ?thesis by (simp add: pixelAt_def)
qed

lemma accepts_withinTolerance:
  assumes "wellFormed c" "inBounds c seed" "inBounds c p"
  shows "accepts c tolerance (pixelAt c (pixelKey c seed * 4)) p \<longleftrightarrow> withinTolerance c tolerance seed p"
  by (simp add: accepts_def withinTolerance_def pixelAt_channel [OF assms(1,2)]
        pixelAt_channel [OF assms(1,3)] not_less)

lemma region_mono:
  assumes "\<And>p. inBounds c p \<Longrightarrow> ok p \<Longrightarrow> ok' p"
  shows "p \<in> region c ok seed \<Longrightarrow> p \<in> region c ok' seed"
proof (induction rule: region.induct)
  case start
  then show ?case using assms by (blast intro: region.start)
next
  case (grow p q)
  then show ?case using assms by (blast intro: region.grow)
qed

lemma region_cong:
  assumes "\<And>p. inBounds c p \<Longrightarrow> ok p = ok' p"
  shows "region c ok seed = region c ok' seed"
  using assms by (blast intro: region_mono)

lemma region_component:
  assumes "wellFormed c" "inBounds c seed"
  shows "region c (accepts c tolerance (pixelAt c (pixelKey c seed * 4))) seed = component c tolerance seed"
  unfolding component_def
  by (rule region_cong) (rule accepts_withinTolerance [OF assms])

lemma region_all:
  assumes seed: "inBounds c (sx, sy)" and ok: "\<And>p. inBounds c p \<Longrightarrow> ok p"
  shows "inBounds c p \<Longrightarrow> p \<in> region c ok (sx, sy)"
proof (induction "nat (\<bar>fst p - sx\<bar> + \<bar>snd p - sy\<bar>)" arbitrary: p)
  case 0
  then have "fst p = sx \<and> snd p = sy" by auto
  then have "p = (sx, sy)" by (simp add: prod_eq_iff)
  with seed ok show ?case by (simp add: region.start)
next
  case (Suc n)
  show ?case
  proof (cases "fst p = sx")
    case False
    define q where "q = (if sx < fst p then fst p - 1 else fst p + 1, snd p)"
    have "n = nat (\<bar>fst q - sx\<bar> + \<bar>snd q - sy\<bar>)"
      using Suc.hyps(2) False by (auto simp: q_def)
    moreover have qin: "inBounds c q"
      using Suc.prems seed False by (auto simp: q_def inBounds_def)
    ultimately have "q \<in> region c ok (sx, sy)" by (rule Suc.hyps(1))
    moreover have "p \<in> set (neighbours4 q)"
      by (auto simp: q_def neighbours4_def prod_eq_iff)
    ultimately show ?thesis
      using Suc.prems ok by (blast intro: region.grow)
  next
    case True
    then have ne: "snd p \<noteq> sy" using Suc.hyps(2) by auto
    define q where "q = (fst p, if sy < snd p then snd p - 1 else snd p + 1)"
    have "n = nat (\<bar>fst q - sx\<bar> + \<bar>snd q - sy\<bar>)"
      using Suc.hyps(2) True ne by (auto simp: q_def)
    moreover have qin: "inBounds c q"
      using Suc.prems seed ne by (auto simp: q_def inBounds_def)
    ultimately have "q \<in> region c ok (sx, sy)" by (rule Suc.hyps(1))
    moreover have "p \<in> set (neighbours4 q)"
      by (auto simp: q_def neighbours4_def prod_eq_iff)
    ultimately show ?thesis
      using Suc.prems ok by (blast intro: region.grow)
  qed
qed

lemma uniform_channel:
  assumes "uniformColor c" "inBounds c p" "j < 3"
  shows "channel c p j = uint (data c ! j)"
proof -
  have "0 \<le> pixelKey c p \<and> pixelKey c p < width c * height c"
    using assms(2) pixel_key_range [of "fst p" "width c" "snd p" "height c"]
    by (simp add: inBounds_def pixelKey_def)
  then have "pixelKey c p \<in> set [0..width c * height c - 1]" by simp
  moreover have "j \<in> set [0, 1, 2]" using assms(3) by auto
  ultimately have "data c ! (nat (pixelKey c p * 4) + j) = data c ! j"
    using assms(1) unfolding uniformColor_def by blast
  then show ?thesis by (simp add: channel_def)
qed

lemma uniform_component:
  assumes "inBounds c seed" and "0 \<le> tolerance" and "uniformColor c"
  shows "component c tolerance seed = {p. inBounds c p}"
proof -
  have ok: "withinTolerance c tolerance seed p" if "inBounds c p" for p
    using assms(2) uniform_channel [OF assms(3) that] uniform_channel [OF assms(3) assms(1)]
    by (simp add: withinTolerance_def)
  obtain sx sy where seed: "seed = (sx, sy)" by (cases seed)
  show ?thesis
    unfolding component_def seed
    using region_all [OF assms(1) [unfolded seed], of "withinTolerance c tolerance (sx, sy)"]
      ok [unfolded seed] region_inBounds
    by blast
qed

lemma logInv_initial: "logInv c tolerance target (initialFill c sx sy)"
  by (simp add: logInv_def initialFill_def)

lemma logInv_step:
  assumes inv: "logInv c tolerance target st" and ne: "stack st \<noteq> []"
  shows "logInv c tolerance target (fillStep d c tolerance target st)"
proof -
  obtain px py rest where s: "stack st = (px, py) # rest"
    using ne by (cases "stack st") auto
  let ?key = "py * width c + px"
  have once: "count_list (diffLog st) k = 1" if "k \<in> visited st" for k
    using inv that by (simp add: logInv_def)
  have rej: "jsGreater (colorDiff (pixelAt c (k * 4)) target) (tolerance * 3)"
    if "k \<in> set (diffLog st)" "k \<notin> visited st" for k
    using inv that by (simp add: logInv_def)
  have same: "logInv c tolerance target st'"
    if "visited st' = visited st" "diffLog st' = diffLog st" for st'
    using inv that by (simp add: logInv_def)
  show ?thesis
  proof (cases "?key \<in> visited st")
    case True
    show ?thesis unfolding fillStep_seen [OF s True] by (rule same) simp_all
  next
    case new: False
    show ?thesis
    proof (cases "0 \<le> px \<and> px < width c \<and> 0 \<le> py \<and> py < height c")
      case False
      show ?thesis unfolding fillStep_outside [OF s False] by (rule same) simp_all
    next
      case True
      then have inb: "0 \<le> px" "px < width c" "0 \<le> py" "py < height c" by simp_all
      show ?thesis
      proof (cases "jsGreater (colorDiff (pixelAt c (?key * 4)) target) (tolerance * 3)")
        case True
        have "count_list (diffLog st @ [?key]) k = 1" if "k \<in> visited st" for k
          using once [OF that] that new by auto
        moreover have "jsGreater (colorDiff (pixelAt c (k * 4)) target) (tolerance * 3)"
          if "k \<in> set (diffLog st @ [?key])" "k \<notin> visited st" for k
          using that rej [of k] True by auto
        ultimately show ?thesis
          unfolding fillStep_rejected [OF s new inb True] logInv_def by simp
      next
        case False
        have fresh: "?key \<notin> set (diffLog st)"
          using rej [of ?key] new False by blast
        then have "count_list (diffLog st) ?key = 0" by (simp add: count_list_0_iff)
        then have "count_list (diffLog st @ [?key]) k = 1" if "k \<in> insert ?key (visited st)" for k
          using once [of k] that new by auto
        moreover have "jsGreater (colorDiff (pixelAt c (k * 4)) target) (tolerance * 3)"
          if "k \<in> set (diffLog st @ [?key])" "k \<notin> insert ?key (visited st)" for k
          using that rej [of k] by auto
        ultimately show ?thesis
          unfolding fillStep_accepted [OF s new inb False] logInv_def by simp
      qed
    qed
  qed
qed

lemma floodFill_logInv:
  "logInv c tolerance target (floodFill d c tolerance target (initialFill c sx sy))"
proof -
  have "logInv c tolerance target (floodFill d c tolerance target (initialFill c sx sy)) \<and>
        stack (floodFill d c tolerance target (initialFill c sx sy)) = []"
    by (rule floodFill_invariant [where P = "logInv c tolerance target"])
       (simp_all add: logInv_step logInv_initial)
  then show ?thesis by simp
qed

lemma selectedPixels_visited:
  assumes "p \<in> selectedPixels c (maskData (growRegion d tolerance c x y))"
  shows "pixelKey c p \<in> visited (growRegion d tolerance c x y)"
  using assms unfolding growRegion_unfold selectedPixels_region floodFill_visited by blast

lemma twoByTwo_run:
  "growRegion Stack 40 twoByTwo 0 0 =
     \<lparr> stack = [], visited = {1, 2, 0},
       maskData = [255, 255, 255, 255,  255, 255, 255, 255,  255, 255, 255, 255,  0, 0, 0, 0],
       minX = 0, minY = 0, maxX = 1, maxY = 1, diffLog = [0, 2, 3, 1, 3] \<rparr>"
  by (simp add: growRegion_def twoByTwo_def initialFill_def pixelAt_def readByte_def
        floodFill_more floodFill_done fillStep_def Let_def paintWhite_def)
     (simp add: eval_nat_numeral)

lemma twoByTwo_run_queue:
  "growRegion Queue 40 twoByTwo 0 0 =
     \<lparr> stack = [], visited = {2, 1, 0},
       maskData = [255, 255, 255, 255,  255, 255, 255, 255,  255, 255, 255, 255,  0, 0, 0, 0],
       minX = 0, minY = 0, maxX = 1, maxY = 1, diffLog = [0, 1, 2, 3, 3] \<rparr>"
  by (simp add: growRegion_def twoByTwo_def initialFill_def pixelAt_def readByte_def
        floodFill_more floodFill_done fillStep_def Let_def paintWhite_def)
     (simp add: eval_nat_numeral)

lemma plainTwoByTwo_run:
  "growRegion Stack 40 plainTwoByTwo 0 0 =
     \<lparr> stack = [], visited = {1, 3, 2, 0},
       maskData = [255, 255, 255, 255,  255, 255, 255, 255,  255, 255, 255, 255,  255, 255, 255, 255],
       minX = 0, minY = 0, maxX = 1, maxY = 1, diffLog = [0, 2, 3, 1] \<rparr>"
  by (simp add: growRegion_def plainTwoByTwo_def initialFill_def pixelAt_def readByte_def
        floodFill_more floodFill_done fillStep_def Let_def paintWhite_def)
     (simp add: eval_nat_numeral)

section \<open>Properties of mask bytes and mask scans\<close>

lemma scanPixel_unselected:
  "\<not> decodePixel (data mc) (y * width mc + x) \<Longrightarrow> scanPixel mc y x st = st"
  by (simp add: scanPixel_def decodePixel_def Let_def)

lemma scan_row_unselected:
  "\<forall>x \<in> set xs. \<not> decodePixel (data mc) (y * width mc + x) \<Longrightarrow> fold (scanPixel mc y) xs st = st"
  by (induction xs arbitrary: st) (simp_all add: scanPixel_unselected)

lemma scan_rows_unselected:
  "\<forall>y \<in> set ys. \<forall>x \<in> set xs. \<not> decodePixel (data mc) (y * width mc + x) \<Longrightarrow>
   fold (\<lambda>y st. fold (scanPixel mc y) xs st) ys st = st"
  by (induction ys arbitrary: st) (simp_all add: scan_row_unselected)

lemma scanMask_unselected:
  "allUnselected mc \<Longrightarrow> hasWhite (scanMask mc) = False"
  unfolding allUnselected_def scanMask_def by (subst scan_rows_unselected) simp_all

lemma updateMaskFromCanvas_unselected:
  "allUnselected mc \<Longrightarrow> currentMask (updateMaskFromCanvas maskId (Some mc) s) = None"
  by (simp add: updateMaskFromCanvas_def scanMask_unselected)

lemma handleMouseUp_unselected:
  "allUnselected mc \<Longrightarrow> handleMouseUp maskId True (Some mc) s = (False, s)"
  by (simp add: handleMouseUp_def scanMask_unselected)

lemma upto_0_1: "[0..1::int] = [0, 1]"
  by code_simp

lemma upto_0_3: "[0..3::int] = [0, 1, 2, 3]"
  by code_simp

lemma blackTwoByTwo_unselected: "allUnselected blackTwoByTwo"
  unfolding allUnselected_def blackTwoByTwo_def
  by (simp add: upto_0_1 del: set_upto) (simp add: decodePixel_def readByte_def)

lemma paintWhite_nth_nat:
  assumes "k * 4 + 3 < length md" and "i < length md"
  shows "paintWhite md (int k * 4) ! i = (if i div 4 = k then 255 else md ! i)"
proof -
  have "nat (int k * 4) + 3 < length md" using assms(1) by (simp add: nat_mult_distrib)
  from paintWhite_nth [OF _ this assms(2)] have
    "paintWhite md (int k * 4) ! i = (if int i div 4 = int k then 255 else md ! i)" by simp
  moreover have "int i div 4 = int k \<longleftrightarrow> i div 4 = k" by arith
  ultimately show ?thesis by simp
qed

lemma encode_fold:
  assumes "n \<le> length m" and "length buf = length m * 4"
  shows "length (fold (\<lambda>k md. if m ! k then paintWhite md (int k * 4) else md) [0..<n] buf) = length buf \<and>
         (\<forall>i < length buf.
            fold (\<lambda>k md. if m ! k then paintWhite md (int k * 4) else md) [0..<n] buf ! i =
              (if i div 4 < n \<and> m ! (i div 4) then 255 else buf ! i))"
  using assms(1)
proof (induction n)
  case 0
  show ?case by simp
next
  case (Suc n)
  let ?f = "\<lambda>k md. if m ! k then paintWhite md (int k * 4) else md"
  let ?md = "fold ?f [0..<n] buf"
  from Suc have len: "length ?md = length buf"
    and nth: "\<And>i. i < length buf \<Longrightarrow> ?md ! i = (if i div 4 < n \<and> m ! (i div 4) then 255 else buf ! i)"
    by simp_all
  have step: "fold ?f [0..<Suc n] buf = ?f n ?md" by simp
  have fits: "n * 4 + 3 < length ?md" using Suc.prems assms(2) len by simp
  show ?case
  proof (cases "m ! n")
    case True
    have "?f n ?md ! i = (if i div 4 < Suc n \<and> m ! (i div 4) then 255 else buf ! i)"
      if "i < length buf" for i
      using that True nth [OF that] paintWhite_nth_nat [OF fits, of i] len
      by (auto simp: less_Suc_eq)
    then show ?thesis
      unfolding step using True len by (simp add: paintWhite_length)
  next
    case False
    have "?f n ?md ! i = (if i div 4 < Suc n \<and> m ! (i div 4) then 255 else buf ! i)"
      if "i < length buf" for i
      using that False nth [OF that] by (auto simp: less_Suc_eq)
    then show ?thesis
      unfolding step using False len by simp
  qed
qed

lemma encodeMask_length: "length (encodeMask m) = length m * 4"
  using encode_fold [of "length m" m "replicate (length m * 4) 0"] by (simp add: encodeMask_def)

lemma encodeMask_nth:
  assumes "i < length m * 4"
  shows "encodeMask m ! i = (if m ! (i div 4) then 255 else 0)"
proof -
  have "i div 4 < length m" using assms by simp
  with encode_fold [of "length m" m "replicate (length m * 4) 0"] assms
  show ?thesis by (simp add: encodeMask_def)
qed

lemma concat_quads_length:
  "\<forall>b. length (f b) = 4 \<Longrightarrow> length (concat (map f m)) = length m * 4"
  by (induction m) simp_all

lemma concat_quads_nth:
  assumes "\<forall>b. length (f b) = 4"
  shows "i < length m * 4 \<Longrightarrow> concat (map f m) ! i = f (m ! (i div 4)) ! (i mod 4)"
proof (induction m arbitrary: i)
  case Nil
  then show ?case by simp
next
  case (Cons b m)
  show ?case
  proof (cases "i < 4")
    case True
    then show ?thesis using assms by (simp add: nth_append)
  next
    case False
    then have i: "i = (i - 4) + 4" by simp
    have "(i - 4) < length m * 4" using Cons.prems False by simp
    from Cons.IH [OF this] have "concat (map f m) ! (i - 4) = f (m ! ((i - 4) div 4)) ! ((i - 4) mod 4)" .
    moreover have "(i - 4) div 4 = i div 4 - 1" "(i - 4) mod 4 = i mod 4" "0 < i div 4"
      using False by arith+
    ultimately show ?thesis
      using False assms by (simp add: nth_append nth_Cons')
  qed
qed

lemma quad_nth:
  fixes v w :: "8 word"
  assumes "j < 4"
  shows "(if b then [v, v, v, v] else [w, w, w, w]) ! j = (if b then v else w)"
proof -
  from assms have "j = 0 \<or> j = 1 \<or> j = 2 \<or> j = 3" by linarith
  then show ?thesis by (elim disjE) simp_all
qed

lemma encodeMask_bytes:
  "encodeMask m = concat (map (\<lambda>b. if b then [255, 255, 255, 255] else [0, 0, 0, 0]) m)"
proof (rule nth_equalityI)
  let ?f = "\<lambda>b. if b then [255, 255, 255, 255] else [0, 0, 0, 0 :: 8 word]"
  have f4: "\<forall>b. length (?f b) = 4" by simp
  show "length (encodeMask m) = length (concat (map ?f m))"
    by (simp add: encodeMask_length concat_quads_length [OF f4])
  fix i assume "i < length (encodeMask m)"
  then have i: "i < length m * 4" by (simp add: encodeMask_length)
  have "i mod 4 < 4" by simp
  then have "?f (m ! (i div 4)) ! (i mod 4) = (if m ! (i div 4) then 255 else 0)"
    by (rule quad_nth)
  then show "encodeMask m ! i = concat (map ?f m) ! i"
    by (simp only: encodeMask_nth [OF i] concat_quads_nth [OF f4 i])
qed

lemma decode_encode: "decodeMask (encodeMask m) (length m) = m"
proof (rule nth_equalityI)
  show "length (decodeMask (encodeMask m) (length m)) = length m"
    by (simp add: decodeMask_def)
  fix k assume "k < length (decodeMask (encodeMask m) (length m))"
  then have k: "k < length m" by (simp add: decodeMask_def)
  then have i: "k * 4 < length m * 4" by simp
  have "readByte (encodeMask m) (int k * 4) = Some (uint (encodeMask m ! (k * 4)))"
    using i by (simp add: readByte_def encodeMask_length nat_mult_distrib)
  then have "decodePixel (encodeMask m) (int k) = m ! k"
    using encodeMask_nth [OF i] by (simp add: decodePixel_def)
  then show "decodeMask (encodeMask m) (length m) ! k = m ! k"
    using k by (simp add: decodeMask_def)
qed

lemma decode_encode_spec: "decodeMask (encodeMask_spec m) (length m) = m"
proof (rule nth_equalityI)
  let ?f = "\<lambda>b. if b then [255, 255, 255, 255] else [0, 0, 0, 255 :: 8 word]"
  have f4: "\<forall>b. length (?f b) = 4" by simp
  show "length (decodeMask (encodeMask_spec m) (length m)) = length m"
    by (simp add: decodeMask_def)
  fix k assume "k < length (decodeMask (encodeMask_spec m) (length m))"
  then have k: "k < length m" by (simp add: decodeMask_def)
  then have i: "k * 4 < length m * 4" by simp
  have len: "length (encodeMask_spec m) = length m * 4"
    unfolding encodeMask_spec_def by (rule concat_quads_length [OF f4])
  have "encodeMask_spec m ! (k * 4) = ?f (m ! k) ! 0"
    unfolding encodeMask_spec_def using concat_quads_nth [OF f4 i] by simp
  moreover have "readByte (encodeMask_spec m) (int k * 4) = Some (uint (encodeMask_spec m ! (k * 4)))"
    using i len by (simp add: readByte_def nat_mult_distrib)
  ultimately have "decodePixel (encodeMask_spec m) (int k) = m ! k"
    by (simp add: decodePixel_def)
  then show "decodeMask (encodeMask_spec m) (length m) ! k = m ! k"
    using k by (simp add: decodeMask_def)
qed

lemma growRegion_encodes_visited:
  "maskData (growRegion d tolerance c x y) =
     encodeMask (map (\<lambda>k. int k \<in> visited (growRegion d tolerance c x y))
                   [0..<nat (width c * height c)])"
proof (rule nth_equalityI)
  let ?st = "growRegion d tolerance c x y"
  let ?m = "map (\<lambda>k. int k \<in> visited ?st) [0..<nat (width c * height c)]"
  have inv: "maskInv c ?st" unfolding growRegion_unfold by (rule floodFill_maskInv)
  then have len: "length (maskData ?st) = nat (width c * height c * 4)"
    by (simp add: maskInv_def)
  have lm: "length ?m * 4 = nat (width c * height c * 4)"
    by (simp add: nat_mult_distrib)
  show "length (maskData ?st) = length (encodeMask ?m)"
    using len lm by (simp only: encodeMask_length)
  fix i assume "i < length (maskData ?st)"
  then have i: "i < length ?m * 4" and i': "i < length (maskData ?st)" using len lm by simp_all
  then have d: "i div 4 < nat (width c * height c)" by simp
  have "maskData ?st ! i = (if int i div 4 \<in> visited ?st then 255 else 0)"
    using inv i' by (simp add: maskInv_def)
  moreover have "int i div 4 = int (i div 4)" by simp
  ultimately show "maskData ?st ! i = encodeMask ?m ! i"
    unfolding encodeMask_nth [OF i] using d by simp
qed

lemma paddedBounds_overflow:
  assumes "minX st < 10" and "width c < maxX st - minX st + 20"
  shows "width c < b_x (paddedBounds c st) + b_width (paddedBounds c st)"
  using assms by (simp add: paddedBounds_def Let_def)

lemma twoByTwo_wellFormed: "wellFormed twoByTwo"
  by (simp add: wellFormed_def twoByTwo_def)

lemma plainTwoByTwo_wellFormed: "wellFormed plainTwoByTwo"
  by (simp add: wellFormed_def plainTwoByTwo_def)

lemma plainTwoByTwo_uniform: "uniformColor plainTwoByTwo"
  unfolding uniformColor_def plainTwoByTwo_def
  by (simp add: upto_0_3 del: set_upto)

section \<open>The bounds tracked by the loop\<close>

lemma boundsInv_initial:
  "0 \<le> width c \<Longrightarrow> 0 \<le> height c \<Longrightarrow> boundsInv c (initialFill c sx sy)"
  by (simp add: boundsInv_def initialFill_def)

lemma boundsInv_step:
  assumes inv: "boundsInv c st" and ne: "stack st \<noteq> []"
  shows "boundsInv c (fillStep d c tolerance target st)"
proof -
  obtain px py rest where s: "stack st = (px, py) # rest"
    using ne by (cases "stack st") auto
  let ?key = "py * width c + px"
  have same: "boundsInv c st'"
    if "visited st' = visited st" "minX st' = minX st" "minY st' = minY st"
       "maxX st' = maxX st" "maxY st' = maxY st" for st'
    using inv that by (simp add: boundsInv_def)
  show ?thesis
  proof (cases "?key \<in> visited st")
    case True
    show ?thesis unfolding fillStep_seen [OF s True] by (rule same) simp_all
  next
    case new: False
    show ?thesis
    proof (cases "0 \<le> px \<and> px < width c \<and> 0 \<le> py \<and> py < height c")
      case False
      show ?thesis unfolding fillStep_outside [OF s False] by (rule same) simp_all
    next
      case True
      then have inb: "0 \<le> px" "px < width c" "0 \<le> py" "py < height c" by simp_all
      have inB: "inBounds c (px, py)" using True by (simp add: inBounds_def)
      show ?thesis
      proof (cases "jsGreater (colorDiff (pixelAt c (?key * 4)) target) (tolerance * 3)")
        case True
        show ?thesis unfolding fillStep_rejected [OF s new inb True] by (rule same) simp_all
      next
        case False
        have old: "minX st \<le> fst p \<and> fst p \<le> maxX st \<and> minY st \<le> snd p \<and> snd p \<le> maxY st"
          if "inBounds c p" "pixelKey c p \<in> visited st" for p
          using inv that unfolding boundsInv_def by blast
        have box: "min (minX st) px \<le> fst p \<and> fst p \<le> max (maxX st) px \<and>
                   min (minY st) py \<le> snd p \<and> snd p \<le> max (maxY st) py"
          if p: "inBounds c p" "pixelKey c p \<in> insert ?key (visited st)" for p
        proof (cases "pixelKey c p = ?key")
          case True
          with pixelKey_inj [OF p(1) inB] have "p = (px, py)" by (simp add: pixelKey_def)
          then show ?thesis by simp
        next
          case False
          with p(2) have "pixelKey c p \<in> visited st" by simp
          from old [OF p(1) this] show ?thesis by linarith
        qed
        have "0 \<le> min (minX st) px" "0 \<le> min (minY st) py"
          "max (maxX st) px \<le> max 0 (width c - 1)" "max (maxY st) py \<le> max 0 (height c - 1)"
          using inv inb by (simp_all add: boundsInv_def)
        with box show ?thesis
          unfolding fillStep_accepted [OF s new inb False] boundsInv_def by simp
      qed
    qed
  qed
qed

lemma floodFill_boundsInv:
  assumes "0 \<le> width c" "0 \<le> height c"
  shows "boundsInv c (floodFill d c tolerance target (initialFill c sx sy))"
proof -
  have "boundsInv c (floodFill d c tolerance target (initialFill c sx sy)) \<and>
        stack (floodFill d c tolerance target (initialFill c sx sy)) = []"
    by (rule floodFill_invariant [where P = "boundsInv c"])
       (simp_all add: boundsInv_step boundsInv_initial assms)
  then show ?thesis by simp
qed

lemma uniform_image_padded_bounds:
  assumes "wellFormed c" and "inBounds c (\<lfloor>x\<rfloor>, \<lfloor>y\<rfloor>)" and "0 \<le> tolerance" and "uniformColor c"
  shows "paddedBounds c (growRegion d tolerance c x y) =
           \<lparr> b_x = 0, b_y = 0, b_width = width c + 10, b_height = height c + 10 \<rparr>"
proof -
  let ?st = "growRegion d tolerance c x y"
  have "0 \<le> \<lfloor>x\<rfloor> \<and> \<lfloor>x\<rfloor> < width c \<and> 0 \<le> \<lfloor>y\<rfloor> \<and> \<lfloor>y\<rfloor> < height c"
    using assms(2) unfolding inBounds_def fst_conv snd_conv .
  then have pos: "0 < width c" "0 < height c" by linarith+
  have inv: "boundsInv c ?st"
    unfolding growRegion_unfold using pos by (intro floodFill_boundsInv) simp_all
  have all: "pixelKey c p \<in> visited ?st" if "inBounds c p" for p
  proof -
    from that uniform_component [OF assms(2,3,4)] region_component [OF assms(1,2)]
    have "p \<in> selectedPixels c (maskData ?st)"
      by (simp add: growRegion_unfold selectedPixels_region)
    then show ?thesis by (rule selectedPixels_visited)
  qed
  have "inBounds c (0, 0)" "inBounds c (width c - 1, height c - 1)"
    using pos by (simp_all add: inBounds_def)
  with all inv have "minX ?st \<le> 0" "minY ?st \<le> 0" "width c - 1 \<le> maxX ?st" "height c - 1 \<le> maxY ?st"
    unfolding boundsInv_def by fastforce+
  moreover from inv pos have "0 \<le> minX ?st" "0 \<le> minY ?st"
    "maxX ?st \<le> width c - 1" "maxY ?st \<le> height c - 1"
    by (simp_all add: boundsInv_def)
  ultimately have "minX ?st = 0" "minY ?st = 0" "maxX ?st = width c - 1" "maxY ?st = height c - 1"
    by simp_all
  then show ?thesis by (simp add: paddedBounds_def Let_def)
qed

section \<open>Claims about the version store\<close>

text \<open>
  C1, as stated: with a parent id that names no stored version, \<^verbatim>\<open>addVersion\<close> fails with
  NotFound and leaves the version list and the current pointer as they were. The store
  has no such check. On the one-version project below the id \<open>ghost\<close> is unknown, and
  the call still appends version \<open>a\<close> and makes it current.
\<close>

theorem addVersion_missing_parent_counterexample:
  "getVersionById exampleRoot ''ghost'' = None \<and>
   map id_v (versions (the (project exampleRoot))) = [''r''] \<and>
   map id_v (versions (the (project
      (snd (addVersion ''a'' 2 ''data:a'' ''warmer light'' None ''ghost'' exampleRoot))))) = [''r'', ''a''] \<and>
   currentVersionId (the (project exampleRoot)) = ''r'' \<and>
   currentVersionId (the (project
      (snd (addVersion ''a'' 2 ''data:a'' ''warmer light'' None ''ghost'' exampleRoot)))) = ''a''"
  by (simp add: exampleRoot_def createProject_def initialState_def addVersion_def
        getVersionById_def Let_def)

text \<open>
  C1, amended: for a project \<open>p\<close> and a parent id that names no stored version,
  \<^verbatim>\<open>addVersion\<close> does not fail. It returns the new version, which carries the given
  parent id, appends it to the versions of \<open>p\<close> (the earlier entries are kept as they
  are) and makes it the current version.
\<close>

theorem addVersion_unknown_parent_appends:
  assumes "project s = Some p" and "getVersionById s parent = None"
  shows "fst (addVersion versionId now url prmpt msk parent s) =
           \<lparr> id_v = versionId, imageUrl = url, parentId = Some parent,
             prompt = prmpt, mask = msk, flaws = [], createdAt_v = now \<rparr> \<and>
         project (snd (addVersion versionId now url prmpt msk parent s)) =
           Some (p\<lparr> versions := versions p @
                       [\<lparr> id_v = versionId, imageUrl = url, parentId = Some parent,
                          prompt = prmpt, mask = msk, flaws = [], createdAt_v = now \<rparr>],
                     currentVersionId := versionId, updatedAt := now \<rparr>)"
  using assms(1) by (simp add: addVersion_def Let_def)

theorem addVersion_unknown_parent_appends_witness:
  "project exampleRoot =
     Some \<lparr> id_p = ''p1'', name = ''kitchen'',
            versions = [\<lparr> id_v = ''r'', imageUrl = ''data:r'', parentId = None,
                          prompt = ''Original upload'', mask = None, flaws = [],
                          createdAt_v = 1 \<rparr>],
            currentVersionId = ''r'', createdAt_p = 1, updatedAt = 1 \<rparr> \<and>
   getVersionById exampleRoot ''ghost'' = None \<and>
   map id_v (versions (the (project
      (snd (addVersion ''a'' 2 ''data:a'' ''warmer light'' None ''ghost'' exampleRoot))))) = [''r'', ''a'']"
proof -
  have p: "project exampleRoot =
     Some \<lparr> id_p = ''p1'', name = ''kitchen'',
            versions = [\<lparr> id_v = ''r'', imageUrl = ''data:r'', parentId = None,
                          prompt = ''Original upload'', mask = None, flaws = [],
                          createdAt_v = 1 \<rparr>],
            currentVersionId = ''r'', createdAt_p = 1, updatedAt = 1 \<rparr>"
    by (simp add: exampleRoot_def createProject_def initialState_def)
  have g: "getVersionById exampleRoot ''ghost'' = None"
    by (simp add: getVersionById_def p)
  from addVersion_unknown_parent_appends [OF p g, of "''a''" 2 "''data:a''" "''warmer light''" None]
  show ?thesis using p g by simp
qed

text \<open>
  C5: a project holds the single root \<open>R\<close>; two calls of \<^verbatim>\<open>addVersion\<close> with parent
  \<open>id R\<close> return \<open>A\<close> and \<open>B\<close>. Then the version list is \<open>[R, A, B]\<close> with \<open>R\<close>
  itself unchanged, the history loop started at \<open>A\<close> yields \<open>[R, A]\<close>, started at \<open>B\<close> it
  yields \<open>[R, B]\<close>, and \<^verbatim>\<open>getVersionHistory\<close> returns these lists when \<open>B\<close>, respectively
  \<open>A\<close>, is current. The three ids are distinct and the root id is not empty, as
  generated ids are.
\<close>

theorem fork_keeps_both_branches:
  assumes p: "project s = Some p" and only: "versions p = [R]"
    and root: "parentId R = None"
    and ids: "id_v R \<noteq> []" "a \<noteq> id_v R" "b \<noteq> id_v R" "a \<noteq> b"
    and addA: "addVersion a t1 u1 q1 m1 (id_v R) s = (A, s1)"
    and addB: "addVersion b t2 u2 q2 m2 (id_v R) s1 = (B, s2)"
  shows "(\<exists>p2. project s2 = Some p2 \<and> versions p2 = [R, A, B] \<and>
              walkHistory p2 (Some A) [] = Some [R, A] \<and>
              walkHistory p2 (Some B) [] = Some [R, B]) \<and>
         parentId A = Some (id_v R) \<and> parentId B = Some (id_v R) \<and>
         getVersionHistory s2 = Some [R, B] \<and>
         getVersionHistory (setCurrentVersion t3 a s2) = Some [R, A]"
proof -
  have A: "A = \<lparr> id_v = a, imageUrl = u1, parentId = Some (id_v R),
                 prompt = q1, mask = m1, flaws = [], createdAt_v = t1 \<rparr>"
    using addA addVersion_fst [of a t1 u1 q1 m1 "id_v R" s] by simp
  have B: "B = \<lparr> id_v = b, imageUrl = u2, parentId = Some (id_v R),
                 prompt = q2, mask = m2, flaws = [], createdAt_v = t2 \<rparr>"
    using addB addVersion_fst [of b t2 u2 q2 m2 "id_v R" s1] by simp
  have p1: "project s1 = Some (p\<lparr>versions := [R, A], currentVersionId := a, updatedAt := t1\<rparr>)"
    using addA addVersion_project_Some [OF p, of a t1 u1 q1 m1 "id_v R"] only by simp
  define p2 where "p2 = p\<lparr>versions := [R, A, B], currentVersionId := b, updatedAt := t2\<rparr>"
  have p2: "project s2 = Some p2"
    using addB addVersion_project_Some [OF p1, of b t2 u2 q2 m2 "id_v R"] by (simp add: p2_def)
  have vs: "versions p2 = [R, A, B]" and cur: "currentVersionId p2 = b"
    by (simp_all add: p2_def)
  have parR: "parentOf p2 R = None"
    using root by (simp add: parentOf_def)
  have parA: "parentOf p2 A = Some R"
    using ids by (simp add: parentOf_def vs A)
  have parB: "parentOf p2 B = Some R"
    using ids by (simp add: parentOf_def vs B)
  have wA: "walkHistory p2 (Some A) [] = Some [R, A]"
    by (simp add: walkHistory_Some walkHistory_None parA parR)
  have wB: "walkHistory p2 (Some B) [] = Some [R, B]"
    by (simp add: walkHistory_Some walkHistory_None parB parR)
  have curB: "getCurrentVersion s2 = Some B"
    using ids by (simp add: getCurrentVersion_def p2 vs cur A B)
  have hB: "getVersionHistory s2 = Some [R, B]"
    by (simp add: getVersionHistory_def p2 curB wB)
  let ?s3 = "setCurrentVersion t3 a s2"
  let ?p3 = "p2\<lparr>currentVersionId := a, updatedAt := t3\<rparr>"
  have p3: "project ?s3 = Some ?p3"
    by (simp add: setCurrentVersion_def p2)
  have curA: "getCurrentVersion ?s3 = Some A"
    using ids by (simp add: getCurrentVersion_def p3 vs A)
  have par3: "parentOf ?p3 v = parentOf p2 v" for v
    by (simp add: parentOf_def split: option.splits)
  have wA3: "walkHistory ?p3 (Some A) [] = Some [R, A]"
    by (simp add: walkHistory_Some walkHistory_None par3 parA parR)
  have hA: "getVersionHistory ?s3 = Some [R, A]"
    by (simp add: getVersionHistory_def p3 curA wA3)
  show ?thesis
    using p2 vs wA wB hB hA by (simp add: A B)
qed

theorem fork_keeps_both_branches_witness:
  "getVersionHistory exampleFork = Some [exampleR, exampleB] \<and>
   getVersionHistory (setCurrentVersion 4 ''a'' exampleFork) = Some [exampleR, exampleA]"
proof -
  let ?p = "\<lparr> id_p = ''p1'', name = ''kitchen'', versions = [exampleR],
              currentVersionId = ''r'', createdAt_p = 1, updatedAt = 1 \<rparr>"
  have p: "project exampleRoot = Some ?p"
    by (simp add: exampleRoot_def exampleR_def createProject_def initialState_def)
  have only: "versions ?p = [exampleR]" by simp
  have root: "parentId exampleR = None" by (simp add: exampleR_def)
  have i1: "id_v exampleR \<noteq> []" and i2: "''a'' \<noteq> id_v exampleR"
    and i3: "''b'' \<noteq> id_v exampleR" and i4: "''a'' \<noteq> ''b''"
    by (simp_all add: exampleR_def)
  have addA: "addVersion ''a'' 2 ''data:a'' ''warmer light'' None (id_v exampleR) exampleRoot =
                (exampleA, snd (addVersion ''a'' 2 ''data:a'' ''warmer light'' None ''r'' exampleRoot))"
    by (simp add: addVersion_def Let_def exampleA_def exampleR_def)
  have addB: "addVersion ''b'' 3 ''data:b'' ''add plants'' None (id_v exampleR)
                (snd (addVersion ''a'' 2 ''data:a'' ''warmer light'' None ''r'' exampleRoot)) =
                (exampleB, exampleFork)"
    by (simp add: addVersion_def Let_def exampleB_def exampleR_def exampleFork_def)
  from fork_keeps_both_branches [OF p only root i1 i2 i3 i4 addA addB, of 4]
  show ?thesis by simp
qed

text \<open>
  C10, as stated: in every store reachable by \<^verbatim>\<open>createProject\<close>, \<^verbatim>\<open>addVersion\<close> and
  \<^verbatim>\<open>setCurrentVersion\<close> the history is a finite sequence from the root to the target.
  \<^verbatim>\<open>addVersion\<close> stores a parent id that names no version (C1), and the walk stops
  at the version that carries it. The store below is reachable; its versions are the
  upload \<open>r\<close> and the edit \<open>a\<close> with parent \<open>ghost\<close>, and its history is \<open>[a]\<close>: it
  does not start at the root, and its first entry has a parent id.
\<close>

theorem history_misses_root_counterexample:
  "reachable ghostStore \<and>
   map id_v (versions (the (project ghostStore))) = [''r'', ''a''] \<and>
   parentId (hd (versions (the (project ghostStore)))) = None \<and>
   getVersionHistory ghostStore = Some [ghostA] \<and>
   id_v ghostA = ''a'' \<and> parentId ghostA = Some ''ghost''"
proof -
  let ?p = "\<lparr> id_p = ''p1'', name = ''kitchen'', versions = [exampleR, ghostA],
              currentVersionId = ''a'', createdAt_p = 1, updatedAt = 2 \<rparr>"
  have cur: "getCurrentVersion ghostStore = Some ghostA"
    by (simp add: getCurrentVersion_def ghostStore_project) (simp add: exampleR_def ghostA_def)
  have par: "parentOf ?p ghostA = None"
    by (simp add: parentOf_def ghostA_def exampleR_def)
  have "getVersionHistory ghostStore = walkHistory ?p (Some ghostA) []"
    by (simp add: getVersionHistory_def ghostStore_project cur)
  also have "\<dots> = Some [ghostA]"
    by (simp only: walkHistory_Some par walkHistory_None)
  finally show ?thesis
    using ghostStore_reachable
    by (simp add: ghostStore_project) (simp add: exampleR_def ghostA_def)
qed

text \<open>
  C10, amended: in every store reachable by \<^verbatim>\<open>createProject\<close>, \<^verbatim>\<open>addVersion\<close> and
  \<^verbatim>\<open>setCurrentVersion\<close>, \<^verbatim>\<open>getVersionHistory\<close> returns, and so does the history loop
  started at any stored version. Without a project, or when the current id names no
  stored version, the history is empty. Otherwise it ends in the target (the first
  stored version with the current id), links every entry to its parent, holds stored
  versions only, and starts at a version whose parent the loop cannot follow: its parent
  id is null, empty or the id of no stored version. When every stored parent id names a
  stored version, the history starts at the root upload, whose parent id is null.
\<close>

theorem history_terminates:
  assumes "reachable s"
  shows "(\<exists>h. getVersionHistory s = Some h \<and>
              (case project s of
                 None \<Rightarrow> h = []
               | Some p \<Rightarrow>
                   (case find (\<lambda>v. id_v v = currentVersionId p) (versions p) of
                      None \<Rightarrow> h = []
                    | Some c \<Rightarrow>
                        isHistoryOf p c h \<and>
                        (parentsStored p \<longrightarrow> hd h = hd (versions p) \<and> parentId (hd h) = None)))) \<and>
         (\<forall>p v. project s = Some p \<and> v \<in> set (versions p) \<longrightarrow>
              (\<exists>h. walkHistory p (Some v) [] = Some h \<and> isHistoryOf p v h \<and>
                   (parentsStored p \<longrightarrow> hd h = hd (versions p) \<and> parentId (hd h) = None)))"
proof -
  have inv: "storeInv s" using assms by (rule reachable_storeInv)
  have walk: "\<exists>h. walkHistory p (Some v) [] = Some h \<and> isHistoryOf p v h \<and>
                (parentsStored p \<longrightarrow> hd h = hd (versions p) \<and> parentId (hd h) = None)"
    if p: "project s = Some p" and v: "v \<in> set (versions p)" for p v
  proof -
    from inv p have "parentsEarlier (versions p)" by (simp add: storeInv_def)
    from walk_from_member [OF this v]
    obtain h where h: "walkHistory p (Some v) [] = Some h" "isHistoryOf p v h" by blast
    with history_root [OF inv p h(2)] show ?thesis by blast
  qed
  have first: "\<exists>h. getVersionHistory s = Some h \<and>
              (case project s of
                 None \<Rightarrow> h = []
               | Some p \<Rightarrow>
                   (case find (\<lambda>v. id_v v = currentVersionId p) (versions p) of
                      None \<Rightarrow> h = []
                    | Some c \<Rightarrow>
                        isHistoryOf p c h \<and>
                        (parentsStored p \<longrightarrow> hd h = hd (versions p) \<and> parentId (hd h) = None)))"
  proof (cases "project s")
    case None
    then show ?thesis by (simp add: getVersionHistory_def)
  next
    case (Some p)
    show ?thesis
    proof (cases "find (\<lambda>v. id_v v = currentVersionId p) (versions p)")
      case None
      with Some show ?thesis by (simp add: getVersionHistory_def getCurrentVersion_def)
    next
      case c: (Some c)
      then have cur: "getCurrentVersion s = Some c" using Some by (simp add: getCurrentVersion_def)
      from walk [OF Some getCurrentVersion_member [OF Some cur]]
      show ?thesis using Some c cur by (simp add: getVersionHistory_def)
    qed
  qed
  from first walk show ?thesis by blast
qed

theorem history_terminates_witness:
  "reachable exampleFork \<and>
   project exampleFork =
     Some \<lparr> id_p = ''p1'', name = ''kitchen'', versions = [exampleR, exampleA, exampleB],
            currentVersionId = ''b'', createdAt_p = 1, updatedAt = 3 \<rparr> \<and>
   exampleA \<in> set [exampleR, exampleA, exampleB] \<and>
   parentsStored \<lparr> id_p = ''p1'', name = ''kitchen'', versions = [exampleR, exampleA, exampleB],
            currentVersionId = ''b'', createdAt_p = 1, updatedAt = 3 \<rparr> \<and>
   getVersionHistory exampleFork \<noteq> None \<and>
   hd (the (getVersionHistory exampleFork)) = exampleR \<and>
   last (the (getVersionHistory exampleFork)) = exampleB \<and>
   hd (the (walkHistory \<lparr> id_p = ''p1'', name = ''kitchen'', versions = [exampleR, exampleA, exampleB],
            currentVersionId = ''b'', createdAt_p = 1, updatedAt = 3 \<rparr> (Some exampleA) [])) = exampleR"
proof -
  let ?p = "\<lparr> id_p = ''p1'', name = ''kitchen'', versions = [exampleR, exampleA, exampleB],
            currentVersionId = ''b'', createdAt_p = 1, updatedAt = 3 \<rparr>"
  have pr: "project exampleFork = Some ?p" by (rule exampleFork_project)
  have mem: "exampleA \<in> set (versions ?p)" by simp
  have stored: "parentsStored ?p"
    by (simp add: parentsStored_def exampleR_def exampleA_def exampleB_def)
  have cur: "find (\<lambda>v. id_v v = currentVersionId ?p) (versions ?p) = Some exampleB"
    by (simp add: exampleR_def exampleA_def exampleB_def)
  from history_terminates [OF exampleFork_reachable]
  have a: "\<exists>h. getVersionHistory exampleFork = Some h \<and> isHistoryOf ?p exampleB h \<and>
             hd h = hd (versions ?p)"
    and b: "\<exists>h. walkHistory ?p (Some exampleA) [] = Some h \<and> hd h = hd (versions ?p)"
    using pr mem stored cur by (auto simp del: find.simps)
  from a b show ?thesis
    using exampleFork_reachable pr stored by (auto simp: isHistoryOf_def)
qed

section \<open>Claims about the region-growing selection\<close>

text \<open>
  C3: for a canvas with its full byte array, a click inside the canvas and any tolerance,
  the pixels selected in the mask that the loop writes are the 4-connected component of
  the clicked pixel among the pixels whose summed absolute R, G, B differences from it
  are at most three times the tolerance. This holds for the stack of the source and for
  a queue alike, and the two disciplines write the same mask bytes.
\<close>

theorem selection_independent_of_traversal_order:
  assumes "wellFormed c" and "inBounds c (\<lfloor>x\<rfloor>, \<lfloor>y\<rfloor>)"
  shows "selectedPixels c (maskData (growRegion Stack tolerance c x y)) =
           component c tolerance (\<lfloor>x\<rfloor>, \<lfloor>y\<rfloor>) \<and>
         selectedPixels c (maskData (growRegion Queue tolerance c x y)) =
           component c tolerance (\<lfloor>x\<rfloor>, \<lfloor>y\<rfloor>) \<and>
         maskData (growRegion Stack tolerance c x y) = maskData (growRegion Queue tolerance c x y)"
  using region_component [OF assms] growRegion_same_mask
  by (simp add: growRegion_unfold selectedPixels_region)

theorem selection_independent_of_traversal_order_witness:
  "wellFormed twoByTwo \<and> inBounds twoByTwo (0, 0) \<and>
   selectedPixels twoByTwo (maskData (growRegion Stack 40 twoByTwo 0 0)) = component twoByTwo 40 (0, 0) \<and>
   selectedPixels twoByTwo (maskData (growRegion Queue 40 twoByTwo 0 0)) = component twoByTwo 40 (0, 0) \<and>
   maskData (growRegion Queue 40 twoByTwo 0 0) =
     [255, 255, 255, 255,  255, 255, 255, 255,  255, 255, 255, 255,  0, 0, 0, 0]"
proof -
  have b: "inBounds twoByTwo (\<lfloor>0::real\<rfloor>, \<lfloor>0::real\<rfloor>)"
    by (simp add: inBounds_def twoByTwo_def)
  from selection_independent_of_traversal_order [OF twoByTwo_wellFormed b, of 40]
  show ?thesis using twoByTwo_wellFormed b by (simp add: twoByTwo_run_queue)
qed

text \<open>
  C7: on a canvas all of whose pixels have one RGB value, with a click inside the canvas
  and a tolerance of at least 0, \<^verbatim>\<open>segmentAtPoint\<close> selects every pixel of the canvas.
\<close>

theorem uniform_image_fully_selected:
  assumes "wellFormed c" and "inBounds c (\<lfloor>x\<rfloor>, \<lfloor>y\<rfloor>)" and "0 \<le> tolerance" and "uniformColor c"
  shows "selectedPixels c (maskData (growRegion Stack tolerance c x y)) = {p. inBounds c p}"
  using uniform_component [OF assms(2,3,4)] region_component [OF assms(1,2)]
  by (simp add: growRegion_unfold selectedPixels_region)

theorem uniform_image_fully_selected_witness:
  "wellFormed plainTwoByTwo \<and> inBounds plainTwoByTwo (0, 0) \<and> (0::int) \<le> 40 \<and>
   uniformColor plainTwoByTwo \<and>
   (1, 1) \<in> selectedPixels plainTwoByTwo (maskData (growRegion Stack 40 plainTwoByTwo 0 0))"
proof -
  have b: "inBounds plainTwoByTwo (\<lfloor>0::real\<rfloor>, \<lfloor>0::real\<rfloor>)"
    by (simp add: inBounds_def plainTwoByTwo_def)
  have t: "(0::int) \<le> 40" by simp
  have "inBounds plainTwoByTwo (1, 1)" by (simp add: inBounds_def plainTwoByTwo_def)
  with uniform_image_fully_selected [OF plainTwoByTwo_wellFormed b t plainTwoByTwo_uniform]
  show ?thesis using plainTwoByTwo_wellFormed b plainTwoByTwo_uniform by simp
qed

text \<open>
  C8, as stated: no pixel has its colour test evaluated twice in one run, accepted or
  rejected. The loop adds a key to \<^verbatim>\<open>visited\<close> only after the test has passed, so a
  rejected pixel is tested again whenever it is popped again. In the 2 by 2 image below
  the pixel \<open>(1, 1)\<close> is rejected and tested twice, once for each accepted neighbour.
\<close>

theorem rejected_pixel_evaluated_twice:
  "inBounds twoByTwo (1, 1) \<and>
   (1, 1) \<notin> selectedPixels twoByTwo (maskData (growRegion Stack 40 twoByTwo 0 0)) \<and>
   count_list (diffLog (growRegion Stack 40 twoByTwo 0 0)) (pixelKey twoByTwo (1, 1)) = 2"
  by (simp add: twoByTwo_run selectedPixels_def decodePixel_def readByte_def)
     (simp add: twoByTwo_def inBounds_def pixelKey_def)

text \<open>
  C8, amended: in one run of \<^verbatim>\<open>segmentAtPoint\<close> every pixel that ends up selected has
  its colour test evaluated exactly once; \<^verbatim>\<open>visited\<close> keeps an accepted pixel from
  being tested again.
\<close>

theorem selected_pixel_evaluated_once:
  assumes "p \<in> selectedPixels c (maskData (growRegion Stack tolerance c x y))"
  shows "count_list (diffLog (growRegion Stack tolerance c x y)) (pixelKey c p) = 1"
proof -
  have "logInv c tolerance (pixelAt c (pixelKey c (\<lfloor>x\<rfloor>, \<lfloor>y\<rfloor>) * 4)) (growRegion Stack tolerance c x y)"
    unfolding growRegion_unfold by (rule floodFill_logInv)
  with selectedPixels_visited [OF assms] show ?thesis
    by (simp add: logInv_def)
qed

theorem selected_pixel_evaluated_once_witness:
  "(1, 0) \<in> selectedPixels twoByTwo (maskData (growRegion Stack 40 twoByTwo 0 0)) \<and>
   count_list (diffLog (growRegion Stack 40 twoByTwo 0 0)) (pixelKey twoByTwo (1, 0)) = 1"
proof -
  have sel: "(1, 0) \<in> selectedPixels twoByTwo (maskData (growRegion Stack 40 twoByTwo 0 0))"
    by (simp add: twoByTwo_run selectedPixels_def decodePixel_def readByte_def)
       (simp add: twoByTwo_def inBounds_def pixelKey_def)
  from selected_pixel_evaluated_once [OF sel] sel show ?thesis by simp
qed

text \<open>
  C2: the padded bounds should stay inside the image, \<open>x + width \<le> imageWidth\<close> and
  \<open>y + height \<le> imageHeight\<close>. On the 2 by 2 image of one colour a click at \<open>(0, 0)\<close>
  selects all four pixels, and both components report the bounds \<open>(0, 0, 12, 12)\<close>:
  \<open>x\<close> is cut off at 0, but the width is still measured from \<open>minX - padding\<close>.
\<close>

theorem padded_bounds_exceed_image:
  "bounds (the (currentMask (segmentAtPoint ''m1'' (Some plainTwoByTwo) 0 0 initialState))) =
     \<lparr> b_x = 0, b_y = 0, b_width = 12, b_height = 12 \<rparr> \<and>
   snd (the (segmentAtPoint_SegmentationCanvas (Some plainTwoByTwo) 0 0)) =
     \<lparr> b_x = 0, b_y = 0, b_width = 12, b_height = 12 \<rparr> \<and>
   width plainTwoByTwo = 2 \<and> height plainTwoByTwo = 2"
proof -
  have run32: "growRegion Stack 32 plainTwoByTwo 0 0 = growRegion Stack 40 plainTwoByTwo 0 0"
    unfolding plainTwoByTwo_run
    by (simp add: growRegion_def plainTwoByTwo_def initialFill_def pixelAt_def readByte_def
        floodFill_more floodFill_done fillStep_def Let_def paintWhite_def)
       (simp add: eval_nat_numeral)
  show ?thesis
    by (simp add: segmentAtPoint_def segmentAtPoint_SegmentationCanvas_def run32 plainTwoByTwo_run
          paddedBounds_def Let_def)
       (simp add: plainTwoByTwo_def)
qed

section \<open>Claims about mask bytes and painted masks\<close>

text \<open>
  C4, as stated: the encoding writes opaque black, \<open>(0, 0, 0, 255)\<close>, for a pixel that
  is not selected. The selection code starts from a zeroed buffer and paints selected
  pixels only, so such a pixel keeps alpha 0.
\<close>

theorem unselected_pixels_are_transparent:
  "encodeMask [True, False] = [255, 255, 255, 255, 0, 0, 0, 0] \<and>
   encodeMask_spec [True, False] = [255, 255, 255, 255, 0, 0, 0, 255] \<and>
   encodeMask [True, False] \<noteq> encodeMask_spec [True, False]"
  by (simp add: encodeMask_bytes encodeMask_spec_def)

text \<open>
  C4, amended: for every binary mask \<open>m\<close>, decoding the encoding of \<open>m\<close> gives \<open>m\<close>
  back, where the encoding writes \<open>(255, 255, 255, 255)\<close> for a selected pixel and
  \<open>(0, 0, 0, 0)\<close> for any other, and decoding selects the pixels whose red byte exceeds
  128. The round trip holds as well for the encoding with opaque black.
\<close>

theorem mask_round_trip:
  "decodeMask (encodeMask m) (length m) = m \<and>
   encodeMask m = concat (map (\<lambda>b. if b then [255, 255, 255, 255] else [0, 0, 0, 0]) m) \<and>
   decodeMask (encodeMask_spec m) (length m) = m"
  using decode_encode encodeMask_bytes decode_encode_spec by blast

text \<open>
  C6: ending a stroke over a mask canvas without a selected pixel should leave the store
  without a current mask. \<^verbatim>\<open>handleBrushEnd\<close> of \<^verbatim>\<open>ImageCanvas\<close> does that;
  \<^verbatim>\<open>handleMouseUp\<close> of \<^verbatim>\<open>BrushMaskCanvas\<close> leaves the store as it was, and a mask set
  earlier stays current.
\<close>

theorem brush_stroke_end_keeps_stale_mask:
  "hasWhite (scanMask blackTwoByTwo) = False \<and>
   currentMask (snd (handleMouseUp ''m1'' True (Some blackTwoByTwo)
                      (initialState\<lparr>currentMask := Some staleMask\<rparr>))) = Some staleMask \<and>
   currentMask (snd (handleBrushEnd ''m1'' True (Some blackTwoByTwo)
                      (initialState\<lparr>currentMask := Some staleMask\<rparr>))) = None"
  by (simp add: blackTwoByTwo_unselected scanMask_unselected handleMouseUp_unselected
        handleBrushEnd_def updateMaskFromCanvas_unselected)

end
